theory Spec2Isabelle
  imports Main "HOL-Library.Word" "HOL-Library.Signed_Division"
begin

unbundle bit_operations_syntax

section \<open>The box blur filter of libavfilter/vf_boxblur.c\<close>

text \<open>
  Samples are bytes (\<open>uint8_t\<close>). Pointers are addresses in one flat byte store, so that
  two pointers may alias, as the destination and the source of the vertical pass do.
  The C type \<open>int\<close> is modelled by \<open>int\<close>: for a radius up to \<open>2 ^ 22\<close> the sums and
  products of \<open>blur\<close> stay within the 32-bit range (lemma \<open>blur_within_int32\<close>).
  \<open>a / b\<close> of C truncates and is
  \<open>sdiv\<close>; \<open>a >> n\<close> is \<open>drop_bit n a\<close> and \<open>a << n\<close> is \<open>push_bit n a\<close>; storing an
  \<open>int\<close> into a \<open>uint8_t\<close> keeps it modulo 256, which is \<open>word_of_int\<close>.
\<close>

type_synonym u8 = "8 word"
type_synonym addr = int
type_synonym mem = "addr \<Rightarrow> u8"

text \<open>Reading \<open>p[0]\<close> through a \<open>uint8_t\<close> pointer, promoted to \<open>int\<close>.\<close>

definition ld :: "mem \<Rightarrow> addr \<Rightarrow> int" where
  "ld m p = uint (m p)"

text \<open>
  \<open>for (; x < n; x++) body\<close>: the loop starts from the current value of \<open>x\<close> and leaves
  \<open>x\<close> behind for the code after it; \<open>s\<close> is whatever else the body changes.
\<close>

function for_loop :: "(int \<Rightarrow> 's \<Rightarrow> 's) \<Rightarrow> int \<Rightarrow> int \<times> 's \<Rightarrow> int \<times> 's" where
  "for_loop body n (x, s) = (if x < n then for_loop body n (x + 1, body x s) else (x, s))"
  by pat_completeness auto
termination
  by (relation "measure (\<lambda>(body, n, x, s). nat (n - x))") auto

declare for_loop.simps [simp del]

subsection \<open>blur: one pass of the sliding box over a strided run\<close>

text \<open>The fixed-point normalisation \<open>(sum*inv + (1<<15))>>16\<close>, before it is stored.\<close>

definition scale :: "int \<Rightarrow> int \<Rightarrow> int" where
  "scale sm inv' = drop_bit 16 (sm * inv' + push_bit 15 1)"

text \<open>
  The body shared by the three output loops of \<open>blur\<close> (the first runs while
  \<open>x <= radius\<close>, that is \<open>x < radius + 1\<close>), which differ only in the two
  source indices \<open>i_in\<close> and \<open>i_out\<close>:
  \<open>sum += src[i_in*src_step] - src[i_out*src_step]; dst[x*dst_step] = (sum*inv + (1<<15))>>16;\<close>
\<close>

definition blur_step ::
  "addr \<Rightarrow> int \<Rightarrow> addr \<Rightarrow> int \<Rightarrow> int \<Rightarrow> int \<Rightarrow> int \<Rightarrow> int \<Rightarrow> mem \<times> int \<Rightarrow> mem \<times> int" where
  "blur_step dst dst_step src src_step inv' i_in i_out x ms =
    (let m = fst ms;
         sum = snd ms + (ld m (src + i_in * src_step) - ld m (src + i_out * src_step))
     in (m(dst + x * dst_step := word_of_int (scale sum inv')), sum))"

definition blur :: "mem \<Rightarrow> addr \<Rightarrow> int \<Rightarrow> addr \<Rightarrow> int \<Rightarrow> int \<Rightarrow> int \<Rightarrow> mem" where
  "blur m dst dst_step src src_step len radius =
    (let length' = radius * 2 + 1;
         inv = (push_bit 16 1 + length' sdiv 2) sdiv length';
         (x, sum) = for_loop (\<lambda>x sum. sum + push_bit 1 (ld m (src + x * src_step)))
                      radius (0, 0);
         sum = sum + ld m (src + radius * src_step);
         (x, ms) = for_loop (\<lambda>x. blur_step dst dst_step src src_step inv
                                   (radius + x) (radius - x) x)
                     (radius + 1) (0, m, sum);
         (x, ms) = for_loop (\<lambda>x. blur_step dst dst_step src src_step inv
                                   (radius + x) (x - radius - 1) x)
                     (len - radius) (x, ms);
         (x, ms) = for_loop (\<lambda>x. blur_step dst dst_step src src_step inv
                                   (2 * len - radius - x - 1) (x - radius - 1) x)
                     len (x, ms)
     in fst ms)"

subsection \<open>blur_power: the blur applied power times through two scratch buffers\<close>

text \<open>
  \<open>for (; power > 2; power--) { blur(b, 1, a, 1, len, radius); c = a; a = b; b = c; }\<close>
  The loop returns the store and the two scratch pointers as it leaves them.
\<close>

function blur_pingpong :: "mem \<Rightarrow> addr \<Rightarrow> addr \<Rightarrow> int \<Rightarrow> int \<Rightarrow> int \<Rightarrow> mem \<times> addr \<times> addr \<times> int" where
  "blur_pingpong m a b len radius power' =
     (if power' > 2 then blur_pingpong (blur m b 1 a 1 len radius) b a len radius (power' - 1)
      else (m, a, b, power'))"
  by pat_completeness auto
termination
  by (relation "measure (\<lambda>(m, a, b, len, radius, power'). nat power')") auto

declare blur_pingpong.simps [simp del]

text \<open>\<open>temp\<close> is the array of the two scratch pointers \<open>temp[0]\<close> and \<open>temp[1]\<close>.\<close>

definition blur_power ::
  "mem \<Rightarrow> addr \<Rightarrow> int \<Rightarrow> addr \<Rightarrow> int \<Rightarrow> int \<Rightarrow> int \<Rightarrow> int \<Rightarrow> addr \<times> addr \<Rightarrow> mem" where
  "blur_power m dst dst_step src src_step len radius power' temp =
    (let a = fst temp; b = snd temp in
     if radius \<noteq> 0 \<and> power' \<noteq> 0 then
       let m = blur m a 1 src src_step len radius;
           (m, a, b, power') = blur_pingpong m a b len radius power'
       in if power' > 1 then blur m dst dst_step a 1 len radius
          else snd (for_loop (\<lambda>i m. m(dst + i * dst_step := m (a + i))) len (0, m))
     else snd (for_loop (\<lambda>i m. m(dst + i * dst_step := m (src + i * src_step))) len (0, m)))"

subsection \<open>hblur and vblur: the passes over the rows and the columns of a plane\<close>

definition hblur ::
  "mem \<Rightarrow> addr \<Rightarrow> int \<Rightarrow> addr \<Rightarrow> int \<Rightarrow> int \<Rightarrow> int \<Rightarrow> int \<Rightarrow> int \<Rightarrow> addr \<times> addr \<Rightarrow> mem" where
  "hblur m dst dst_linesize src src_linesize w h radius power' temp =
    (if radius = 0 \<and> dst = src then m
     else snd (for_loop (\<lambda>y m.
            blur_power m (dst + y * dst_linesize) 1 (src + y * src_linesize) 1
                       w radius power' temp) h (0, m)))"

definition vblur ::
  "mem \<Rightarrow> addr \<Rightarrow> int \<Rightarrow> addr \<Rightarrow> int \<Rightarrow> int \<Rightarrow> int \<Rightarrow> int \<Rightarrow> int \<Rightarrow> addr \<times> addr \<Rightarrow> mem" where
  "vblur m dst dst_linesize src src_linesize w h radius power' temp =
    (if radius = 0 \<and> dst = src then m
     else snd (for_loop (\<lambda>x m.
            blur_power m (dst + x) dst_linesize (src + x) src_linesize
                       h radius power' temp) w (0, m)))"

subsection \<open>The passes with a record of their writes\<close>

text \<open>
  To count the writes of a pass: \<open>blur\<close>, \<open>blur_power\<close> and \<open>vblur\<close> once more,
  statement for statement, over a store that carries the addresses written so far, the
  oldest first. \<open>st p v\<close> is the assignment \<open>*p = v\<close>. The store these functions
  return is the store of the functions above (lemmas \<open>blur_t_spec\<close>, \<open>blur_power_t_spec\<close>
  and \<open>vblur_t_spec\<close>).
\<close>

type_synonym tmem = "mem \<times> addr list"

definition st :: "addr \<Rightarrow> u8 \<Rightarrow> tmem \<Rightarrow> tmem" where
  "st p v t = ((fst t)(p := v), snd t @ [p])"

definition blur_step_t ::
  "addr \<Rightarrow> int \<Rightarrow> addr \<Rightarrow> int \<Rightarrow> int \<Rightarrow> int \<Rightarrow> int \<Rightarrow> int \<Rightarrow> tmem \<times> int \<Rightarrow> tmem \<times> int" where
  "blur_step_t dst dst_step src src_step inv' i_in i_out x ts =
    (let m = fst (fst ts);
         sum = snd ts + (ld m (src + i_in * src_step) - ld m (src + i_out * src_step))
     in (st (dst + x * dst_step) (word_of_int (scale sum inv')) (fst ts), sum))"

definition blur_t :: "tmem \<Rightarrow> addr \<Rightarrow> int \<Rightarrow> addr \<Rightarrow> int \<Rightarrow> int \<Rightarrow> int \<Rightarrow> tmem" where
  "blur_t t dst dst_step src src_step len radius =
    (let m = fst t;
         length' = radius * 2 + 1;
         inv = (push_bit 16 1 + length' sdiv 2) sdiv length';
         (x, sum) = for_loop (\<lambda>x sum. sum + push_bit 1 (ld m (src + x * src_step)))
                      radius (0, 0);
         sum = sum + ld m (src + radius * src_step);
         (x, ts) = for_loop (\<lambda>x. blur_step_t dst dst_step src src_step inv
                                   (radius + x) (radius - x) x)
                     (radius + 1) (0, t, sum);
         (x, ts) = for_loop (\<lambda>x. blur_step_t dst dst_step src src_step inv
                                   (radius + x) (x - radius - 1) x)
                     (len - radius) (x, ts);
         (x, ts) = for_loop (\<lambda>x. blur_step_t dst dst_step src src_step inv
                                   (2 * len - radius - x - 1) (x - radius - 1) x)
                     len (x, ts)
     in fst ts)"

function blur_pingpong_t :: "tmem \<Rightarrow> addr \<Rightarrow> addr \<Rightarrow> int \<Rightarrow> int \<Rightarrow> int \<Rightarrow> tmem \<times> addr \<times> addr \<times> int" where
  "blur_pingpong_t t a b len radius power' =
     (if power' > 2 then blur_pingpong_t (blur_t t b 1 a 1 len radius) b a len radius (power' - 1)
      else (t, a, b, power'))"
  by pat_completeness auto
termination
  by (relation "measure (\<lambda>(t, a, b, len, radius, power'). nat power')") auto

declare blur_pingpong_t.simps [simp del]

definition blur_power_t ::
  "tmem \<Rightarrow> addr \<Rightarrow> int \<Rightarrow> addr \<Rightarrow> int \<Rightarrow> int \<Rightarrow> int \<Rightarrow> int \<Rightarrow> addr \<times> addr \<Rightarrow> tmem" where
  "blur_power_t t dst dst_step src src_step len radius power' temp =
    (let a = fst temp; b = snd temp in
     if radius \<noteq> 0 \<and> power' \<noteq> 0 then
       let t = blur_t t a 1 src src_step len radius;
           (t, a, b, power') = blur_pingpong_t t a b len radius power'
       in if power' > 1 then blur_t t dst dst_step a 1 len radius
          else snd (for_loop (\<lambda>i t. st (dst + i * dst_step) (fst t (a + i)) t) len (0, t))
     else snd (for_loop (\<lambda>i t. st (dst + i * dst_step) (fst t (src + i * src_step)) t) len (0, t)))"

definition vblur_t ::
  "tmem \<Rightarrow> addr \<Rightarrow> int \<Rightarrow> addr \<Rightarrow> int \<Rightarrow> int \<Rightarrow> int \<Rightarrow> int \<Rightarrow> int \<Rightarrow> addr \<times> addr \<Rightarrow> tmem" where
  "vblur_t t dst dst_linesize src src_linesize w h radius power' temp =
    (if radius = 0 \<and> dst = src then t
     else snd (for_loop (\<lambda>x t.
            blur_power_t t (dst + x) dst_linesize (src + x) src_linesize
                       h radius power' temp) w (0, t)))"

subsection \<open>The filter context, init and config_input\<close>

text \<open>
  \<open>FilterParam\<close> and \<open>BoxBlurContext\<close>. The fields \<open>radius\<close> and \<open>power\<close> of
  \<open>FilterParam\<close> are \<open>param_radius\<close> and \<open>param_power\<close> here, the arrays \<open>radius[4]\<close> and
  \<open>power[4]\<close> of the context are \<open>plane_radius\<close> and \<open>plane_power\<close>, indexed by
  \<open>Y = 0\<close>, \<open>U = 1\<close>, \<open>V = 2\<close> and \<open>A = 3\<close>. A \<open>char *\<close> that may be \<open>NULL\<close> is a
  \<open>string option\<close>, the array \<open>temp[2]\<close> a pair of pointers, \<open>NULL\<close> being 0.
\<close>

record FilterParam =
  param_radius :: int
  param_power :: int
  radius_expr :: "string option"

record BoxBlurContext =
  luma_param :: FilterParam
  chroma_param :: FilterParam
  alpha_param :: FilterParam
  hsub :: int
  vsub :: int
  plane_radius :: "int list"
  plane_power :: "int list"
  temp :: "addr \<times> addr"

text \<open>
  The error codes the filter returns (\<open>Ret r\<close> is the negative code the expression
  evaluator handed back), the component a macro of \<open>config_input\<close> is expanded for, and
  the messages logged at \<open>AV_LOG_ERROR\<close>, with their arguments.
\<close>

datatype averror = EINVAL | ENOMEM | Ret int

datatype comp = Luma | Chroma | Alpha

datatype log_msg =
    Luma_radius_expression_is_not_set
  | Error_when_evaluating_radius_expression comp "string option"
  | Invalid_radius_value comp int int

type_synonym 'a result = "(averror \<times> log_msg list) + 'a"

text \<open>
  \<open>init\<close>. \<open>av_strdup\<close> is not part of this file: it returns a copy of its argument, or
  \<open>NULL\<close> when it cannot allocate, so the outcomes of the two allocations are the
  parameters \<open>ok_c\<close> and \<open>ok_a\<close>.
\<close>

definition av_strdup :: "bool \<Rightarrow> string option \<Rightarrow> string option" where
  "av_strdup ok s = (if ok then s else None)"

definition init :: "bool \<Rightarrow> bool \<Rightarrow> BoxBlurContext \<Rightarrow> BoxBlurContext result" where
  "init ok_c ok_a boxblur =
    (if radius_expr (luma_param boxblur) = None
     then Inl (EINVAL, [Luma_radius_expression_is_not_set])
     else
       let dup_c = (if radius_expr (chroma_param boxblur) = None
                    then av_strdup ok_c (radius_expr (luma_param boxblur))
                    else radius_expr (chroma_param boxblur))
       in if dup_c = None then Inl (ENOMEM, [])
       else
         let boxblur = boxblur\<lparr>chroma_param := (chroma_param boxblur)\<lparr>radius_expr := dup_c\<rparr>\<rparr>;
             boxblur = (if param_power (chroma_param boxblur) < 0
                        then boxblur\<lparr>chroma_param := (chroma_param boxblur)
                               \<lparr>param_power := param_power (luma_param boxblur)\<rparr>\<rparr>
                        else boxblur);
             dup_a = (if radius_expr (alpha_param boxblur) = None
                      then av_strdup ok_a (radius_expr (luma_param boxblur))
                      else radius_expr (alpha_param boxblur))
         in if dup_a = None then Inl (ENOMEM, [])
         else
           let boxblur = boxblur\<lparr>alpha_param := (alpha_param boxblur)\<lparr>radius_expr := dup_a\<rparr>\<rparr>;
               boxblur = (if param_power (alpha_param boxblur) < 0
                          then boxblur\<lparr>alpha_param := (alpha_param boxblur)
                                 \<lparr>param_power := param_power (luma_param boxblur)\<rparr>\<rparr>
                          else boxblur)
           in Inr boxblur)"

text \<open>
  \<open>config_input\<close>. The two results of \<open>av_malloc\<close> are the parameters \<open>t0\<close> and \<open>t1\<close>
  (0 is \<open>NULL\<close>); \<open>log2_chroma_w\<close> and \<open>log2_chroma_h\<close> come from the pixel format
  descriptor. \<open>av_expr_parse_and_eval\<close> is the parameter \<open>ev\<close>: from the expression and
  the values \<open>[w, h, cw, ch, hsub, vsub]\<close> of the variables it gives the return code and
  the result, already converted to \<open>int\<close> as the assignment to \<open>radius\<close> converts it.
\<close>

definition eval_radius_expr ::
  "(string option \<Rightarrow> int list \<Rightarrow> int \<times> int) \<Rightarrow> int list \<Rightarrow> comp \<Rightarrow> FilterParam
     \<Rightarrow> FilterParam result" where
  "eval_radius_expr ev var_values c fp =
    (let expr = radius_expr fp;
         (ret, res) = ev expr var_values;
         fp = fp\<lparr>param_radius := res\<rparr>
     in if ret < 0 then Inl (Ret ret, [Error_when_evaluating_radius_expression c expr])
        else Inr fp)"

text \<open>
  \<open>CHECK_RADIUS_VAL\<close>. The radius is an \<open>int\<close> and so is the product \<open>2*radius\<close>:
  \<open>int32\<close> is the value a 32-bit two's complement \<open>int\<close> takes for the mathematical
  result of an operation, which differs from it once the result leaves
  \<open>- 2^31 .. 2^31 - 1\<close>, as the product does from radius \<open>2^30\<close> on.
\<close>

definition int32 :: "int \<Rightarrow> int" where
  "int32 x = (x + 2147483648) mod 4294967296 - 2147483648"

definition check_radius_val :: "int \<Rightarrow> int \<Rightarrow> comp \<Rightarrow> FilterParam \<Rightarrow> unit result" where
  "check_radius_val w' h' c fp =
    (if param_radius fp < 0 \<or> int32 (2 * param_radius fp) > min w' h'
     then Inl (EINVAL, [Invalid_radius_value c (param_radius fp) (min w' h' sdiv 2)])
     else Inr ())"

definition config_input ::
  "(string option \<Rightarrow> int list \<Rightarrow> int \<times> int) \<Rightarrow> addr \<Rightarrow> addr \<Rightarrow> nat \<Rightarrow> nat \<Rightarrow> int \<Rightarrow> int
     \<Rightarrow> BoxBlurContext \<Rightarrow> BoxBlurContext result" where
  "config_input ev t0 t1 log2_chroma_w log2_chroma_h w h boxblur =
    (if t0 = 0 \<or> t1 = 0 then Inl (ENOMEM, [])
     else
       let boxblur = boxblur\<lparr>temp := (t0, t1)\<rparr>;
           boxblur = boxblur\<lparr>hsub := int log2_chroma_w, vsub := int log2_chroma_h\<rparr>;
           cw = drop_bit (nat (hsub boxblur)) w;
           ch = drop_bit (nat (vsub boxblur)) h;
           var_values = [w, h, cw, ch, push_bit (nat (hsub boxblur)) 1,
                         push_bit (nat (vsub boxblur)) 1]
       in case eval_radius_expr ev var_values Luma (luma_param boxblur) of
            Inl e \<Rightarrow> Inl e
          | Inr lp \<Rightarrow>
       let boxblur = boxblur\<lparr>luma_param := lp\<rparr>
       in case eval_radius_expr ev var_values Chroma (chroma_param boxblur) of
            Inl e \<Rightarrow> Inl e
          | Inr cp \<Rightarrow>
       let boxblur = boxblur\<lparr>chroma_param := cp\<rparr>
       in case eval_radius_expr ev var_values Alpha (alpha_param boxblur) of
            Inl e \<Rightarrow> Inl e
          | Inr ap \<Rightarrow>
       let boxblur = boxblur\<lparr>alpha_param := ap\<rparr>
       in case check_radius_val w h Luma (luma_param boxblur) of
            Inl e \<Rightarrow> Inl e
          | Inr _ \<Rightarrow>
       case check_radius_val cw ch Chroma (chroma_param boxblur) of
            Inl e \<Rightarrow> Inl e
          | Inr _ \<Rightarrow>
       case check_radius_val w h Alpha (alpha_param boxblur) of
            Inl e \<Rightarrow> Inl e
          | Inr _ \<Rightarrow>
       Inr (boxblur\<lparr>
         plane_radius := [param_radius (luma_param boxblur), param_radius (chroma_param boxblur),
                          param_radius (chroma_param boxblur), param_radius (alpha_param boxblur)],
         plane_power := [param_power (luma_param boxblur), param_power (chroma_param boxblur),
                         param_power (chroma_param boxblur), param_power (alpha_param boxblur)]\<rparr>))"

subsection \<open>filter_frame\<close>

text \<open>
  An \<open>AVFrame\<close> as far as the filter reads it: the plane pointers (0 is \<open>NULL\<close>), the
  line sizes and the height. \<open>plane_loop\<close> is
  \<open>for (plane = 0; in->data[plane] && plane < 4; plane++) body\<close>.
\<close>

record AVFrame =
  data :: "nat \<Rightarrow> addr"
  linesize :: "nat \<Rightarrow> int"
  height :: int

function plane_loop :: "(nat \<Rightarrow> mem \<Rightarrow> mem) \<Rightarrow> AVFrame \<Rightarrow> nat \<Rightarrow> mem \<Rightarrow> mem" where
  "plane_loop body inp plane m =
     (if data inp plane \<noteq> 0 \<and> plane < 4 then plane_loop body inp (plane + 1) (body plane m)
      else m)"
  by pat_completeness auto
termination
  by (relation "measure (\<lambda>(body, inp, plane, m). 4 - plane)") auto

declare plane_loop.simps [simp del]

text \<open>
  \<open>ff_get_video_buffer\<close> hands the output frame in, or fails (\<open>None\<close>); the frame goes on
  to \<open>ff_filter_frame\<close>, whose return code is taken to be 0.
\<close>

definition filter_frame ::
  "BoxBlurContext \<Rightarrow> int \<Rightarrow> mem \<Rightarrow> AVFrame \<Rightarrow> AVFrame option \<Rightarrow> (mem \<times> AVFrame) result" where
  "filter_frame boxblur inlink_w m inp out_buffer =
    (let cw = drop_bit (nat (hsub boxblur)) inlink_w;
         ch = drop_bit (nat (vsub boxblur)) (height inp);
         w = [inlink_w, cw, cw, inlink_w];
         h = [height inp, ch, ch, height inp]
     in case out_buffer of
          None \<Rightarrow> Inl (ENOMEM, [])
        | Some out \<Rightarrow>
            let m = plane_loop (\<lambda>plane m.
                      hblur m (data out plane) (linesize out plane)
                              (data inp plane) (linesize inp plane)
                              (w ! plane) (h ! plane)
                              (plane_radius boxblur ! plane) (plane_power boxblur ! plane)
                              (temp boxblur)) inp 0 m;
                m = plane_loop (\<lambda>plane m.
                      vblur m (data out plane) (linesize out plane)
                              (data out plane) (linesize out plane)
                              (w ! plane) (h ! plane)
                              (plane_radius boxblur ! plane) (plane_power boxblur ! plane)
                              (temp boxblur)) inp 0 m
            in Inr (m, out))"

text \<open>
  Modelled from the spec: the host pipeline (libavfilter's framework, not under src/).
  It negotiates the geometry through \<open>config_input\<close> once and hands the frames to
  \<open>filter_frame\<close> only when that succeeded: "on configuration error, a named failure that
  aborts filter initialization", "a frame either completes fully blurred or the call fails
  before any output is produced". The result is the error, or the store and the output
  frames.
\<close>

fun host_frames ::
  "BoxBlurContext \<Rightarrow> int \<Rightarrow> mem \<Rightarrow> (AVFrame \<times> AVFrame option) list
     \<Rightarrow> (mem \<times> AVFrame list) result" where
  "host_frames boxblur w m [] = Inr (m, [])"
| "host_frames boxblur w m ((inp, out_buffer) # rest) =
     (case filter_frame boxblur w m inp out_buffer of
        Inl e \<Rightarrow> Inl e
      | Inr (m, out) \<Rightarrow>
          (case host_frames boxblur w m rest of
             Inl e \<Rightarrow> Inl e
           | Inr (m, outs) \<Rightarrow> Inr (m, out # outs)))"

definition host_session ::
  "(string option \<Rightarrow> int list \<Rightarrow> int \<times> int) \<Rightarrow> addr \<Rightarrow> addr \<Rightarrow> nat \<Rightarrow> nat \<Rightarrow> int \<Rightarrow> int
     \<Rightarrow> BoxBlurContext \<Rightarrow> mem \<Rightarrow> (AVFrame \<times> AVFrame option) list
     \<Rightarrow> (mem \<times> AVFrame list) result" where
  "host_session ev t0 t1 log2_chroma_w log2_chroma_h w h boxblur m frames =
    (case config_input ev t0 t1 log2_chroma_w log2_chroma_h w h boxblur of
       Inl e \<Rightarrow> Inl e
     | Inr boxblur \<Rightarrow> host_frames boxblur w m frames)"

text \<open>
  The context as the option table leaves it when nothing but the defaults is configured:
  the luma radius expression is "2", the luma power 2, the chroma and alpha expressions are
  \<open>NULL\<close> and their powers -1.
\<close>

definition default_context :: BoxBlurContext where
  "default_context =
     \<lparr>luma_param = \<lparr>param_radius = 0, param_power = 2, radius_expr = Some ''2''\<rparr>,
      chroma_param = \<lparr>param_radius = 0, param_power = - 1, radius_expr = None\<rparr>,
      alpha_param = \<lparr>param_radius = 0, param_power = - 1, radius_expr = None\<rparr>,
      hsub = 0, vsub = 0, plane_radius = [0, 0, 0, 0], plane_power = [0, 0, 0, 0],
      temp = (0, 0)\<rparr>"

text \<open>
  The options that configure nothing but the luma radius expression "1073741824", and the
  context \<open>init\<close> makes of them.
\<close>

definition big_radius_options :: BoxBlurContext where
  "big_radius_options =
     default_context\<lparr>luma_param := (luma_param default_context)\<lparr>radius_expr := Some ''1073741824''\<rparr>\<rparr>"

definition big_radius_context :: BoxBlurContext where
  "big_radius_context =
     \<lparr>luma_param = \<lparr>param_radius = 0, param_power = 2, radius_expr = Some ''1073741824''\<rparr>,
      chroma_param = \<lparr>param_radius = 0, param_power = 2, radius_expr = Some ''1073741824''\<rparr>,
      alpha_param = \<lparr>param_radius = 0, param_power = 2, radius_expr = Some ''1073741824''\<rparr>,
      hsub = 0, vsub = 0, plane_radius = [0, 0, 0, 0], plane_power = [0, 0, 0, 0],
      temp = (0, 0)\<rparr>"

section \<open>Runs, cells and the window sums of blur\<close>

text \<open>
  \<open>cells p step n\<close> are the addresses \<open>p[0], p[step], ...\<close> of a strided run of \<open>n\<close>
  samples, \<open>run m p step n\<close> its contents. \<open>blur\<close> reads the source indices
  \<open>0 .. max (len - 1) (2*radius)\<close>, hence \<open>ext len radius\<close> samples: one more than the run
  when \<open>2*radius = len\<close>, which the radius check of \<open>config_input\<close> lets through.
\<close>

definition cells :: "addr \<Rightarrow> int \<Rightarrow> int \<Rightarrow> addr set" where
  "cells p step n = (\<lambda>i. p + i * step) ` {0..<n}"

definition run :: "mem \<Rightarrow> addr \<Rightarrow> int \<Rightarrow> int \<Rightarrow> u8 list" where
  "run m p step n = map (\<lambda>i. m (p + int i * step)) [0..<nat n]"

text \<open>The addresses of the \<open>w\<close> by \<open>h\<close> samples of a plane with line size \<open>ls\<close>.\<close>

definition plane_cells :: "addr \<Rightarrow> int \<Rightarrow> int \<Rightarrow> int \<Rightarrow> addr set" where
  "plane_cells p ls w h = (\<Union>y\<in>{0..<h}. cells (p + y * ls) 1 w)"

definition ext :: "int \<Rightarrow> int \<Rightarrow> int" where
  "ext len radius = max len (2 * radius + 1)"

text \<open>The source samples of a run as \<open>blur\<close> reads them: \<open>src[i*src_step]\<close> as an \<open>int\<close>.\<close>

definition samples :: "mem \<Rightarrow> addr \<Rightarrow> int \<Rightarrow> int \<Rightarrow> int" where
  "samples m src src_step = (\<lambda>i. ld m (src + i * src_step))"

text \<open>
  The index a window position stands for when it falls off the run: the run is mirrored at
  both ends, its first and its last sample being repeated.
\<close>

definition mirror_index :: "int \<Rightarrow> int \<Rightarrow> int" where
  "mirror_index len i = (if i < 0 then - 1 - i else if len \<le> i then 2 * len - 1 - i else i)"

text \<open>
  Stores and runs for the examples: a store that is 255 everywhere, and a run of 23 samples
  whose sum is 3646.
\<close>

definition white :: mem where
  "white = (\<lambda>_. 255)"

definition run23 :: "u8 list" where
  "run23 = replicate 14 255 @ [76] @ replicate 8 0"

text \<open>
  A plane of 2 by 3 samples with one bright sample, followed by the byte behind it, and
  its horizontal mirror.
\<close>

definition plane23 :: "u8 list" where
  "plane23 = [0, 0, 255, 0, 0, 0, 0]"

definition plane23_mirror :: "u8 list" where
  "plane23_mirror = [0, 0, 0, 255, 0, 0, 0]"

text \<open>The reciprocal \<open>inv\<close> of blur for a radius that is not negative.\<close>

definition inv_of :: "int \<Rightarrow> int" where
  "inv_of radius = (65536 + radius) div (2 * radius + 1)"

text \<open>What one pass of the blur makes of a run whose samples all are \<open>v\<close>.\<close>

definition const_step :: "int \<Rightarrow> u8 \<Rightarrow> u8" where
  "const_step radius v = word_of_int (scale (uint v * (2 * radius + 1)) (inv_of radius))"

text \<open>
  The source index that enters the sum at output position \<open>x\<close>, the one that leaves it,
  and the value of \<open>sum\<close> when \<open>dst[x*dst_step]\<close> is stored, for the source
  samples \<open>s\<close>.
\<close>

definition in_idx :: "int \<Rightarrow> int \<Rightarrow> int \<Rightarrow> int" where
  "in_idx radius len x =
     (if x \<le> radius \<or> x < len - radius then radius + x else 2 * len - radius - x - 1)"

definition out_idx :: "int \<Rightarrow> int \<Rightarrow> int" where
  "out_idx radius x = (if x \<le> radius then radius - x else x - radius - 1)"

definition wsum :: "(int \<Rightarrow> int) \<Rightarrow> int \<Rightarrow> int \<Rightarrow> int \<Rightarrow> int" where
  "wsum s radius len x =
     (\<Sum>i\<leftarrow>[0..radius - 1]. 2 * s i) + s radius
     + (\<Sum>j\<leftarrow>[0..x]. s (in_idx radius len j) - s (out_idx radius j))"

text \<open>What one call of \<open>blur\<close> leaves in the destination run, from the source samples.\<close>

definition blur_list :: "int \<Rightarrow> int \<Rightarrow> u8 list \<Rightarrow> u8 list" where
  "blur_list radius len xs =
     map (\<lambda>x. word_of_int (scale (wsum (\<lambda>i. uint (xs ! nat i)) radius len (int x)) (inv_of radius)))
         [0..<nat len]"

text \<open>
  The 1-D box blur as a function on runs: \<open>blur\<close> itself, run on a store that holds the
  source run at address 0 and takes the result right behind it.
\<close>

definition store_of :: "u8 list \<Rightarrow> mem" where
  "store_of xs = (\<lambda>c. if 0 \<le> c \<and> c < int (length xs) then xs ! nat c else 0)"

definition blur_run :: "int \<Rightarrow> u8 list \<Rightarrow> u8 list" where
  "blur_run radius xs =
     (let len = int (length xs)
      in run (blur (store_of xs) len 1 0 1 len radius) len 1 len)"

text \<open>
  The two scratch runs \<open>(a, b)\<close> after \<open>k\<close> rounds of the ping-pong loop of
  \<open>blur_power\<close>: each round blurs \<open>a\<close> into the first \<open>len\<close> samples of \<open>b\<close> and swaps
  the two.
\<close>

fun pp_list :: "int \<Rightarrow> int \<Rightarrow> nat \<Rightarrow> u8 list \<times> u8 list \<Rightarrow> u8 list \<times> u8 list" where
  "pp_list radius len 0 AB = AB"
| "pp_list radius len (Suc k) AB =
     pp_list radius len k (blur_list radius len (fst AB) @ drop (nat len) (snd AB), fst AB)"

text \<open>
  What \<open>blur_power\<close> leaves in the destination run when neither the radius nor the power
  is 0, from the source samples \<open>S\<close> and the contents \<open>A\<close> and \<open>B\<close> of the scratch
  buffers, and what it leaves in the scratch buffers \<open>temp[0]\<close> and \<open>temp[1]\<close>.
\<close>

definition blur_power_list :: "int \<Rightarrow> int \<Rightarrow> int \<Rightarrow> u8 list \<Rightarrow> u8 list \<Rightarrow> u8 list \<Rightarrow> u8 list" where
  "blur_power_list radius len p S A B =
     (let AB = pp_list radius len (nat (p - 2)) (blur_list radius len S @ drop (nat len) A, B)
      in if p > 1 then blur_list radius len (fst AB) else take (nat len) (fst AB))"

definition blur_power_temps ::
  "int \<Rightarrow> int \<Rightarrow> int \<Rightarrow> u8 list \<Rightarrow> u8 list \<Rightarrow> u8 list \<Rightarrow> u8 list \<times> u8 list" where
  "blur_power_temps radius len p S A B =
     (let AB = pp_list radius len (nat (p - 2)) (blur_list radius len S @ drop (nat len) A, B)
      in if even (nat (p - 2)) then AB else (snd AB, fst AB))"

text \<open>
  The addresses a pass writes, in the order it writes them: \<open>writes p step n\<close> are those
  of one \<open>blur\<close> or one copy loop into a run, \<open>pp_writes\<close> those of \<open>k\<close> rounds of the
  ping-pong loop, and \<open>blur_power_writes\<close> those of one call of \<open>blur_power\<close>: the scratch
  buffers first, when neither the radius nor the power is 0, then the destination run from
  its first sample to its last.
\<close>

definition writes :: "addr \<Rightarrow> int \<Rightarrow> int \<Rightarrow> addr list" where
  "writes p step n = map (\<lambda>i. p + i * step) [0..n - 1]"

fun pp_writes :: "addr \<Rightarrow> addr \<Rightarrow> int \<Rightarrow> nat \<Rightarrow> addr list" where
  "pp_writes a b len 0 = []"
| "pp_writes a b len (Suc k) = writes b 1 len @ pp_writes b a len k"

definition blur_power_writes :: "addr \<times> addr \<Rightarrow> addr \<Rightarrow> int \<Rightarrow> int \<Rightarrow> int \<Rightarrow> int \<Rightarrow> addr list" where
  "blur_power_writes tmp dst dst_step len radius p =
     (if radius \<noteq> 0 \<and> p \<noteq> 0
      then writes (fst tmp) 1 len @ pp_writes (fst tmp) (snd tmp) len (nat (p - 2))
      else [])
     @ writes dst dst_step len"

text \<open>
  The loop invariant of the three output loops of \<open>blur\<close> before the iteration at \<open>x\<close>:
  \<open>sum\<close> is the window sum of the position before, nothing outside the destination run
  has changed, and the positions below \<open>x\<close> hold their results.
\<close>

definition blur_inv ::
  "mem \<Rightarrow> addr \<Rightarrow> int \<Rightarrow> addr \<Rightarrow> int \<Rightarrow> int \<Rightarrow> int \<Rightarrow> int \<Rightarrow> mem \<times> int \<Rightarrow> bool" where
  "blur_inv m dst dst_step src src_step len radius x ms \<longleftrightarrow>
     0 \<le> x \<and>
     snd ms = wsum (\<lambda>i. ld m (src + i * src_step)) radius len (x - 1) \<and>
     (\<forall>c. c \<notin> cells dst dst_step len \<longrightarrow> fst ms c = m c) \<and>
     (\<forall>j. 0 \<le> j \<and> j < x \<longrightarrow>
        fst ms (dst + j * dst_step) =
          word_of_int (scale (wsum (\<lambda>i. ld m (src + i * src_step)) radius len j) (inv_of radius)))"

section \<open>Loops\<close>

lemma for_loop_rule:
  assumes "I x s"
    and "\<And>x' s'. x \<le> x' \<Longrightarrow> x' < n \<Longrightarrow> I x' s' \<Longrightarrow> I (x' + 1) (body x' s')"
  shows "I (max x n) (snd (for_loop body n (x, s))) \<and> fst (for_loop body n (x, s)) = max x n"
  using assms
proof (induction body n "(x, s)" arbitrary: x s rule: for_loop.induct)
  case (1 body n x s)
  show ?case
  proof (cases "x < n")
    case True
    have "I (x + 1) (body x s)" using 1(2) 1(3)[of x s] True by simp
    moreover have "\<And>x' s'. x + 1 \<le> x' \<Longrightarrow> x' < n \<Longrightarrow> I x' s' \<Longrightarrow> I (x' + 1) (body x' s')"
      using 1(3) by simp
    ultimately have "I (max (x + 1) n) (snd (for_loop body n (x + 1, body x s))) \<and>
        fst (for_loop body n (x + 1, body x s)) = max (x + 1) n"
      using 1(1)[OF True] by blast
    moreover have "max (x + 1) n = max x n" using True by simp
    ultimately show ?thesis using True by (simp add: for_loop.simps[of body n x s])
  next
    case False
    then show ?thesis using 1(2) by (simp add: for_loop.simps[of body n x s] max_def)
  qed
qed


section \<open>What blur computes\<close>

lemma inv_eq:
  assumes "0 \<le> radius"
  shows "(push_bit 16 1 + (radius * 2 + 1) sdiv 2) sdiv (radius * 2 + 1) = inv_of radius"
proof -
  have a: "(radius * 2 + 1) sdiv 2 = radius"
    using assms by (simp add: signed_divide_int_def sgn_if)
  have b: "(65536 + radius) sdiv (radius * 2 + 1) = (65536 + radius) div (radius * 2 + 1)"
    using assms by (simp add: signed_divide_int_def sgn_if)
  show ?thesis using a b by (simp add: inv_of_def mult.commute)
qed

lemma inv_eq':
  assumes "0 \<le> radius"
  shows "(65536 + (radius * 2 + 1) sdiv 2) sdiv (radius * 2 + 1) = inv_of radius"
  using inv_eq[OF assms] by simp

lemma wsum_start:
  "wsum s radius len (- 1) = (\<Sum>i\<leftarrow>[0..radius - 1]. 2 * s i) + s radius"
  by (simp add: wsum_def)

lemma wsum_step:
  assumes "0 \<le> x"
  shows "wsum s radius len x = wsum s radius len (x - 1) + (s (in_idx radius len x) - s (out_idx radius x))"
  using assms by (simp add: wsum_def upto_rec2[of 0 x])

lemma in_idx_range:
  assumes "0 \<le> radius" "radius < len" "0 \<le> x" "x < len"
  shows "0 \<le> in_idx radius len x \<and> in_idx radius len x < ext len radius"
  using assms by (auto simp: in_idx_def ext_def)

lemma out_idx_range:
  assumes "0 \<le> radius" "radius < len" "0 \<le> x" "x < len"
  shows "0 \<le> out_idx radius x \<and> out_idx radius x < ext len radius"
  using assms by (auto simp: out_idx_def ext_def)

lemma cellsI: "0 \<le> i \<Longrightarrow> i < n \<Longrightarrow> p + i * step \<in> cells p step n"
  unfolding cells_def by (rule image_eqI[of _ _ i]) simp_all

lemma blur_step_inv:
  assumes inv: "blur_inv m dst dst_step src src_step len radius x ms"
    and r: "0 \<le> radius" "radius < len"
    and x: "x < len"
    and ds: "dst_step \<noteq> 0"
    and dj: "cells src src_step (ext len radius) \<inter> cells dst dst_step len = {}"
    and i: "i_in = in_idx radius len x" "i_out = out_idx radius x"
  shows "blur_inv m dst dst_step src src_step len radius (x + 1)
           (blur_step dst dst_step src src_step (inv_of radius) i_in i_out x ms)"
proof -
  have x0: "0 \<le> x" using inv by (simp add: blur_inv_def)
  have fr: "\<And>c. c \<notin> cells dst dst_step len \<Longrightarrow> fst ms c = m c"
    using inv by (simp add: blur_inv_def)
  have rd: "\<And>k. 0 \<le> k \<Longrightarrow> k < ext len radius \<Longrightarrow> ld (fst ms) (src + k * src_step) = ld m (src + k * src_step)"
  proof -
    fix k :: int assume "0 \<le> k" "k < ext len radius"
    then have "src + k * src_step \<in> cells src src_step (ext len radius)" by (rule cellsI)
    then have "src + k * src_step \<notin> cells dst dst_step len" using dj by blast
    then show "ld (fst ms) (src + k * src_step) = ld m (src + k * src_step)"
      using fr by (simp add: ld_def)
  qed
  have s1: "snd ms + (ld (fst ms) (src + i_in * src_step) - ld (fst ms) (src + i_out * src_step))
        = wsum (\<lambda>i. ld m (src + i * src_step)) radius len x"
    using in_idx_range[OF r x0 x] out_idx_range[OF r x0 x] rd i inv
    by (simp add: wsum_step[OF x0] blur_inv_def)
  have inj: "\<And>j. j \<noteq> x \<Longrightarrow> dst + j * dst_step \<noteq> dst + x * dst_step"
    using ds by simp
  have cx: "dst + x * dst_step \<in> cells dst dst_step len" using x0 x by (rule cellsI)
  show ?thesis
    unfolding blur_inv_def blur_step_def Let_def s1
    using inv x0 ds cx
    by (auto simp: blur_inv_def)
qed

lemma double_sum_loop:
  assumes "0 \<le> radius"
  shows "snd (for_loop (\<lambda>x sum. sum + push_bit 1 (ld m (src + x * src_step))) radius (0, 0))
         = (\<Sum>i\<leftarrow>[0..radius - 1]. 2 * ld m (src + i * src_step))"
proof -
  let ?I = "\<lambda>x acc. 0 \<le> x \<and> acc = (\<Sum>i\<leftarrow>[0..x - 1]. 2 * ld m (src + i * src_step))"
  have "?I (max 0 radius) (snd (for_loop (\<lambda>x sum. sum + push_bit 1 (ld m (src + x * src_step))) radius (0, 0)))
        \<and> fst (for_loop (\<lambda>x sum. sum + push_bit 1 (ld m (src + x * src_step))) radius (0, 0)) = max 0 radius"
  proof (rule for_loop_rule[where I = ?I])
    show "?I 0 0" by simp
  next
    fix x' :: int and s' :: int
    assume "0 \<le> x'" "x' < radius" "?I x' s'"
    then show "?I (x' + 1) (s' + push_bit 1 (ld m (src + x' * src_step)))"
      by (simp add: upto_rec2[of 0 x'] push_bit_eq_mult)
  qed
  then show ?thesis using assms by (simp add: max_def)
qed

lemma blur_inv_final:
  assumes r: "0 \<le> radius" "radius < len"
    and ds: "dst_step \<noteq> 0"
    and dj: "cells src src_step (ext len radius) \<inter> cells dst dst_step len = {}"
  shows "\<exists>sm. blur_inv m dst dst_step src src_step len radius len
                (blur m dst dst_step src src_step len radius, sm)"
proof -
  let ?I = "blur_inv m dst dst_step src src_step len radius"
  let ?b1 = "\<lambda>x. blur_step dst dst_step src src_step (inv_of radius) (radius + x) (radius - x) x"
  let ?b2 = "\<lambda>x. blur_step dst dst_step src src_step (inv_of radius) (radius + x) (x - radius - 1) x"
  let ?b3 = "\<lambda>x. blur_step dst dst_step src src_step (inv_of radius) (2 * len - radius - x - 1) (x - radius - 1) x"
  define sum1 where "sum1 = snd (for_loop (\<lambda>x sum. sum + push_bit 1 (ld m (src + x * src_step))) radius (0, 0))
                            + ld m (src + radius * src_step)"
  define L1 where "L1 = for_loop ?b1 (radius + 1) (0, m, sum1)"
  define L2 where "L2 = for_loop ?b2 (len - radius) (fst L1, snd L1)"
  define L3 where "L3 = for_loop ?b3 len (fst L2, snd L2)"
  have res: "blur m dst dst_step src src_step len radius = fst (snd L3)"
    by (simp add: blur_def Let_def case_prod_beta inv_eq'[OF r(1)] L3_def L2_def L1_def sum1_def)
  have i0: "?I 0 (m, sum1)"
    using double_sum_loop[OF r(1), of m src src_step]
    by (auto simp add: blur_inv_def sum1_def wsum_start)
  have l1: "?I (max 0 (radius + 1)) (snd L1) \<and> fst L1 = max 0 (radius + 1)"
    unfolding L1_def
  proof (rule for_loop_rule[where I = ?I, OF i0])
    fix x' :: int and s'
    assume a: "0 \<le> x'" "x' < radius + 1" "?I x' s'"
    show "?I (x' + 1) (?b1 x' s')"
      by (rule blur_step_inv[OF a(3) r _ ds dj]) (use a r in \<open>auto simp: in_idx_def out_idx_def\<close>)
  qed
  have x1: "fst L1 = radius + 1" using l1 r by simp
  have i1: "?I (radius + 1) (snd L1)" using l1 r by (simp add: max_def)
  have l2: "?I (max (fst L1) (len - radius)) (snd L2) \<and> fst L2 = max (fst L1) (len - radius)"
    unfolding L2_def
  proof (rule for_loop_rule[where I = ?I])
    show "?I (fst L1) (snd L1)" using i1 x1 by simp
  next
    fix x' :: int and s'
    assume a: "fst L1 \<le> x'" "x' < len - radius" "?I x' s'"
    show "?I (x' + 1) (?b2 x' s')"
      by (rule blur_step_inv[OF a(3) r _ ds dj]) (use a r x1 in \<open>auto simp: in_idx_def out_idx_def\<close>)
  qed
  have l3: "?I (max (fst L2) len) (snd L3) \<and> fst L3 = max (fst L2) len"
    unfolding L3_def
  proof (rule for_loop_rule[where I = ?I])
    show "?I (fst L2) (snd L2)" using l2 by simp
  next
    fix x' :: int and s'
    assume a: "fst L2 \<le> x'" "x' < len" "?I x' s'"
    show "?I (x' + 1) (?b3 x' s')"
      by (rule blur_step_inv[OF a(3) r _ ds dj]) (use a r x1 l2 in \<open>auto simp: in_idx_def out_idx_def\<close>)
  qed
  have "max (fst L2) len = len" using l2 x1 r by (simp add: max_def)
  then have "?I len (fst (snd L3), snd (snd L3))" using l3 by simp
  then show ?thesis unfolding res by blast
qed

lemma blur_frame_cells:
  assumes "0 \<le> radius" "radius < len" "dst_step \<noteq> 0"
    and "cells src src_step (ext len radius) \<inter> cells dst dst_step len = {}"
    and "c \<notin> cells dst dst_step len"
  shows "blur m dst dst_step src src_step len radius c = m c"
  using blur_inv_final[OF assms(1-4), of m] assms(5) by (auto simp: blur_inv_def)

lemma blur_cell:
  assumes "0 \<le> radius" "radius < len" "dst_step \<noteq> 0"
    and "cells src src_step (ext len radius) \<inter> cells dst dst_step len = {}"
    and "0 \<le> x" "x < len"
  shows "blur m dst dst_step src src_step len radius (dst + x * dst_step) =
         word_of_int (scale (wsum (\<lambda>i. ld m (src + i * src_step)) radius len x) (inv_of radius))"
  using blur_inv_final[OF assms(1-4), of m] assms(5,6) by (auto simp: blur_inv_def)


lemma run_length [simp]: "length (run m p step n) = nat n"
  by (simp add: run_def)

lemma run_nth: "i < nat n \<Longrightarrow> run m p step n ! i = m (p + int i * step)"
  by (simp add: run_def)

lemma run_cong:
  assumes "\<And>i. 0 \<le> i \<Longrightarrow> i < n \<Longrightarrow> m (p + i * step) = m' (p' + i * step')"
  shows "run m p step n = run m' p' step' n"
  unfolding run_def by (rule map_cong) (use assms in auto)

lemma run_frame:
  assumes "\<And>c. c \<in> cells p step n \<Longrightarrow> m c = m' c"
  shows "run m p step n = run m' p step n"
  by (rule run_cong) (use assms cellsI in blast)

lemma take_run: "k \<le> n \<Longrightarrow> take (nat k) (run m p step n) = run m p step k"
  by (simp add: run_def take_map min_def)

lemma wsum_cong:
  assumes r: "0 \<le> radius" "radius < len" and x: "x < len"
    and eq: "\<And>i. 0 \<le> i \<Longrightarrow> i < ext len radius \<Longrightarrow> s i = s' i"
  shows "wsum s radius len x = wsum s' radius len x"
proof -
  have a: "(\<Sum>i\<leftarrow>[0..radius - 1]. 2 * s i) = (\<Sum>i\<leftarrow>[0..radius - 1]. 2 * s' i)"
    by (rule arg_cong[where f = sum_list], rule map_cong) (use eq r in \<open>auto simp: ext_def\<close>)
  have b: "s radius = s' radius" using eq r by (simp add: ext_def)
  have c: "(\<Sum>j\<leftarrow>[0..x]. s (in_idx radius len j) - s (out_idx radius j))
         = (\<Sum>j\<leftarrow>[0..x]. s' (in_idx radius len j) - s' (out_idx radius j))"
  proof (rule arg_cong[where f = sum_list], rule map_cong)
    fix j assume "j \<in> set [0..x]"
    then have j: "0 \<le> j" "j < len" using x by auto
    show "s (in_idx radius len j) - s (out_idx radius j) = s' (in_idx radius len j) - s' (out_idx radius j)"
      using in_idx_range[OF r j] out_idx_range[OF r j] eq by simp
  qed simp
  show ?thesis unfolding wsum_def a b c ..
qed

lemma blur_refines:
  assumes r: "0 \<le> radius" "radius < len" and ds: "dst_step \<noteq> 0"
    and dj: "cells src src_step (ext len radius) \<inter> cells dst dst_step len = {}"
  shows "run (blur m dst dst_step src src_step len radius) dst dst_step len
         = blur_list radius len (run m src src_step (ext len radius))"
  unfolding run_def[of _ dst] blur_list_def
proof (rule map_cong)
  fix x assume "x \<in> set [0..<nat len]"
  then have x: "0 \<le> int x" "int x < len" by auto
  have "wsum (\<lambda>i. ld m (src + i * src_step)) radius len (int x)
      = wsum (\<lambda>i. uint (run m src src_step (ext len radius) ! nat i)) radius len (int x)"
    by (rule wsum_cong[OF r x(2)]) (simp add: run_nth ld_def)
  then show "blur m dst dst_step src src_step len radius (dst + int x * dst_step) =
         word_of_int (scale (wsum (\<lambda>i. uint (run m src src_step (ext len radius) ! nat i)) radius len (int x)) (inv_of radius))"
    using blur_cell[OF r ds dj x] by simp
qed simp

lemma blur_list_length [simp]: "length (blur_list radius len xs) = nat len"
  by (simp add: blur_list_def)


section \<open>What blur_power computes\<close>

lemma drop_run_cong:
  assumes "\<And>i. k \<le> i \<Longrightarrow> i < n \<Longrightarrow> m (p + i * step) = m' (p + i * step)" and "0 \<le> k"
  shows "drop (nat k) (run m p step n) = drop (nat k) (run m' p step n)"
  unfolding run_def drop_map
  by (rule map_cong) (use assms in \<open>auto simp: drop_upt\<close>)

lemma cells_mono: "k \<le> n \<Longrightarrow> cells p step k \<subseteq> cells p step n"
  by (auto simp: cells_def)

lemma cells_unit_iff: "c \<in> cells p 1 n \<longleftrightarrow> p \<le> c \<and> c < p + n"
proof
  assume "c \<in> cells p 1 n"
  then show "p \<le> c \<and> c < p + n" by (auto simp: cells_def)
next
  assume a: "p \<le> c \<and> c < p + n"
  have "p + (c - p) * 1 \<in> cells p 1 n" by (rule cellsI) (use a in auto)
  then show "c \<in> cells p 1 n" by simp
qed

lemma len_le_ext: "len \<le> ext len radius"
  by (simp add: ext_def)

lemma blur_ext_run:
  assumes r: "0 \<le> radius" "radius < len"
    and dj: "cells src src_step (ext len radius) \<inter> cells dst 1 len = {}"
  shows "run (blur m dst 1 src src_step len radius) dst 1 (ext len radius)
         = blur_list radius len (run m src src_step (ext len radius))
           @ drop (nat len) (run m dst 1 (ext len radius))"
proof -
  let ?m' = "blur m dst 1 src src_step len radius"
  let ?E = "ext len radius"
  have one: "(1::int) \<noteq> 0" by simp
  have a: "take (nat len) (run ?m' dst 1 ?E) = blur_list radius len (run m src src_step ?E)"
    using blur_refines[OF r one dj, of m] by (simp add: take_run[OF len_le_ext])
  have b: "drop (nat len) (run ?m' dst 1 ?E) = drop (nat len) (run m dst 1 ?E)"
  proof (rule drop_run_cong)
    fix i :: int assume "len \<le> i" "i < ?E"
    then have "dst + i * 1 \<notin> cells dst 1 len" by (simp add: cells_unit_iff)
    then show "?m' (dst + i * 1) = m (dst + i * 1)"
      by (rule blur_frame_cells[OF r one dj])
  qed (use r in simp)
  have "run ?m' dst 1 ?E = take (nat len) (run ?m' dst 1 ?E) @ drop (nat len) (run ?m' dst 1 ?E)"
    by simp
  then show ?thesis unfolding a b .
qed

lemma blur_keeps_run:
  assumes r: "0 \<le> radius" "radius < len" and ds: "dst_step \<noteq> 0"
    and dj: "cells src src_step (ext len radius) \<inter> cells dst dst_step len = {}"
    and q: "cells q qs n \<inter> cells dst dst_step len = {}"
  shows "run (blur m dst dst_step src src_step len radius) q qs n = run m q qs n"
  by (rule run_frame) (use blur_frame_cells[OF r ds dj] q in blast)


lemma blur_pingpong_spec:
  assumes r: "0 \<le> radius" "radius < len"
    and dj: "cells a 1 (ext len radius) \<inter> cells b 1 (ext len radius) = {}"
  shows "case blur_pingpong m a b len radius p of (m', a', b', p') \<Rightarrow>
           p' = min p 2 \<and>
           (a', b') = (if even (nat (p - 2)) then (a, b) else (b, a)) \<and>
           (run m' a' 1 (ext len radius), run m' b' 1 (ext len radius))
             = pp_list radius len (nat (p - 2)) (run m a 1 (ext len radius), run m b 1 (ext len radius)) \<and>
           (\<forall>c. c \<notin> cells a 1 len \<union> cells b 1 len \<longrightarrow> m' c = m c)"
  using assms
proof (induction m a b len radius p rule: blur_pingpong.induct)
  case (1 m a b len radius p)
  let ?E = "ext len radius"
  note r = 1(2,3)
  show ?case
  proof (cases "p > 2")
    case False
    then have "nat (p - 2) = 0" by simp
    with False show ?thesis by (simp add: blur_pingpong.simps[of m a b len radius p])
  next
    case True
    let ?m1 = "blur m b 1 a 1 len radius"
    have ab: "cells a 1 ?E \<inter> cells b 1 len = {}"
      using 1(4) cells_mono[OF len_le_ext, of b 1 len radius] by blast
    have ba: "cells b 1 ?E \<inter> cells a 1 ?E = {}" using 1(4) by blast
    have k: "nat (p - 2) = Suc (nat (p - 1 - 2))" using True by simp
    have rb: "run ?m1 b 1 ?E = blur_list radius len (run m a 1 ?E) @ drop (nat len) (run m b 1 ?E)"
      by (rule blur_ext_run[OF r ab])
    have ra: "run ?m1 a 1 ?E = run m a 1 ?E"
      by (rule blur_keeps_run[OF r _ ab ab]) simp
    have fr: "\<And>c. c \<notin> cells b 1 len \<Longrightarrow> ?m1 c = m c"
      by (rule blur_frame_cells[OF r _ ab]) simp_all
    obtain m' a' b' p' where res: "blur_pingpong ?m1 b a len radius (p - 1) = (m', a', b', p')"
      by (cases "blur_pingpong ?m1 b a len radius (p - 1)") auto
    have ih: "p' = min (p - 1) 2 \<and>
           (a', b') = (if even (nat (p - 1 - 2)) then (b, a) else (a, b)) \<and>
           (run m' a' 1 ?E, run m' b' 1 ?E)
             = pp_list radius len (nat (p - 1 - 2)) (run ?m1 b 1 ?E, run ?m1 a 1 ?E) \<and>
           (\<forall>c. c \<notin> cells b 1 len \<union> cells a 1 len \<longrightarrow> m' c = ?m1 c)"
      using 1(1)[OF True r ba] res by simp
    have eq: "blur_pingpong m a b len radius p = (m', a', b', p')"
      using True res by (simp add: blur_pingpong.simps[of m a b len radius p])
    show ?thesis
      unfolding eq using ih True fr
      by (auto simp: k rb ra)
  qed
qed

lemma copy_loop_spec:
  assumes ds: "dst_step \<noteq> 0"
    and dj: "cells src src_step len \<inter> cells dst dst_step len = {}"
  shows "(\<forall>i. 0 \<le> i \<and> i < len \<longrightarrow>
            snd (for_loop (\<lambda>i m. m(dst + i * dst_step := m (src + i * src_step))) len (0, m::mem))
              (dst + i * dst_step) = m (src + i * src_step)) \<and>
         (\<forall>c. c \<notin> cells dst dst_step len \<longrightarrow>
            snd (for_loop (\<lambda>i m. m(dst + i * dst_step := m (src + i * src_step))) len (0, m)) c = m c)"
proof -
  let ?I = "\<lambda>x m'. 0 \<le> x \<and> (\<forall>c. c \<notin> cells dst dst_step len \<longrightarrow> m' c = m c) \<and>
              (\<forall>j. 0 \<le> j \<and> j < x \<longrightarrow> m' (dst + j * dst_step) = m (src + j * src_step))"
  let ?body = "\<lambda>i m. m(dst + i * dst_step := m (src + i * src_step))"
  have "?I (max 0 len) (snd (for_loop ?body len (0, m))) \<and> fst (for_loop ?body len (0, m)) = max 0 len"
  proof (rule for_loop_rule[where I = ?I])
    show "?I 0 m" by auto
  next
    fix x' :: int and s' :: mem
    assume a: "0 \<le> x'" "x' < len" "?I x' s'"
    have "src + x' * src_step \<in> cells src src_step len" using a by (simp add: cellsI)
    then have "src + x' * src_step \<notin> cells dst dst_step len" using dj by blast
    then have rd: "s' (src + x' * src_step) = m (src + x' * src_step)" using a by simp
    have cx: "dst + x' * dst_step \<in> cells dst dst_step len" using a by (simp add: cellsI)
    show "?I (x' + 1) (?body x' s')"
      using a ds cx rd by auto
  qed
  then show ?thesis by (auto simp: max_def)
qed

lemma copy_loop_same:
  "snd (for_loop (\<lambda>i m. m(p + i * step := m (p + i * step))) len (0, m::mem)) = m"
proof -
  let ?I = "\<lambda>(x::int) m'. m' = m"
  let ?body = "\<lambda>i m. m(p + i * step := m (p + i * step))"
  have "?I (max 0 len) (snd (for_loop ?body len (0, m))) \<and> fst (for_loop ?body len (0, m)) = max 0 len"
    by (rule for_loop_rule[where I = ?I]) simp_all
  then show ?thesis by simp
qed


lemma blur_power_spec:
  fixes m :: mem
  assumes r: "1 \<le> radius" "radius < len" and p: "1 \<le> p" and ds: "dst_step \<noteq> 0"
    and ab: "cells a 1 (ext len radius) \<inter> cells b 1 (ext len radius) = {}"
    and sa: "cells src src_step (ext len radius) \<inter> cells a 1 (ext len radius) = {}"
    and da: "cells a 1 (ext len radius) \<inter> cells dst dst_step len = {}"
    and db: "cells b 1 (ext len radius) \<inter> cells dst dst_step len = {}"
  shows "run (blur_power m dst dst_step src src_step len radius p (a, b)) dst dst_step len
           = blur_power_list radius len p (run m src src_step (ext len radius))
               (run m a 1 (ext len radius)) (run m b 1 (ext len radius))
         \<and> (run (blur_power m dst dst_step src src_step len radius p (a, b)) a 1 (ext len radius),
            run (blur_power m dst dst_step src src_step len radius p (a, b)) b 1 (ext len radius))
           = blur_power_temps radius len p (run m src src_step (ext len radius))
               (run m a 1 (ext len radius)) (run m b 1 (ext len radius))
         \<and> (\<forall>c. c \<notin> cells dst dst_step len \<union> cells a 1 len \<union> cells b 1 len \<longrightarrow>
               blur_power m dst dst_step src src_step len radius p (a, b) c = m c)"
proof -
  let ?E = "ext len radius"
  let ?S = "run m src src_step ?E" and ?A = "run m a 1 ?E" and ?B = "run m b 1 ?E"
  let ?k = "nat (p - 2)"
  have r0: "0 \<le> radius" using r by simp
  have one: "(1::int) \<noteq> 0" by simp
  have al: "cells a 1 len \<subseteq> cells a 1 ?E" by (rule cells_mono[OF len_le_ext])
  have bl: "cells b 1 len \<subseteq> cells b 1 ?E" by (rule cells_mono[OF len_le_ext])
  define m1 where "m1 = blur m a 1 src src_step len radius"
  have sa': "cells src src_step ?E \<inter> cells a 1 len = {}" using sa al by blast
  have ba': "cells b 1 ?E \<inter> cells a 1 len = {}" using ab al by blast
  have a1: "run m1 a 1 ?E = blur_list radius len ?S @ drop (nat len) ?A"
    unfolding m1_def by (rule blur_ext_run[OF r0 r(2) sa'])
  have b1: "run m1 b 1 ?E = ?B"
    unfolding m1_def by (rule blur_keeps_run[OF r0 r(2) one sa' ba'])
  have f1: "\<And>c. c \<notin> cells a 1 len \<Longrightarrow> m1 c = m c"
    unfolding m1_def by (rule blur_frame_cells[OF r0 r(2) one sa'])
  obtain m2 a' b' p' where pp: "blur_pingpong m1 a b len radius p = (m2, a', b', p')"
    by (cases "blur_pingpong m1 a b len radius p") auto
  define AB where "AB = pp_list radius len ?k (blur_list radius len ?S @ drop (nat len) ?A, ?B)"
  have sp: "p' = min p 2 \<and> (a', b') = (if even ?k then (a, b) else (b, a)) \<and>
            (run m2 a' 1 ?E, run m2 b' 1 ?E) = AB \<and>
            (\<forall>c. c \<notin> cells a 1 len \<union> cells b 1 len \<longrightarrow> m2 c = m1 c)"
    using blur_pingpong_spec[OF r0 r(2) ab, where m = m1 and p = p] pp by (simp add: a1 b1 AB_def)
  have f2: "\<And>c. c \<notin> cells a 1 len \<union> cells b 1 len \<Longrightarrow> m2 c = m c"
    using sp f1 by simp
  have sp3: "run m2 a' 1 ?E = fst AB" using sp by (metis fst_conv)
  have a'': "a' = a \<or> a' = b" using sp by (auto split: if_splits)
  have da': "cells a' 1 ?E \<inter> cells dst dst_step len = {}" using a'' da db by auto
  have t2: "(run m2 a 1 ?E, run m2 b 1 ?E) = (if even ?k then AB else (snd AB, fst AB))"
    using sp by (auto split: if_splits simp: prod_eq_iff)
  let ?m' = "blur_power m dst dst_step src src_step len radius p (a, b)"
  have L: "blur_power_list radius len p ?S ?A ?B
           = (if p > 1 then blur_list radius len (fst AB) else take (nat len) (fst AB))"
    by (simp only: blur_power_list_def Let_def AB_def)
  have T: "blur_power_temps radius len p ?S ?A ?B = (if even ?k then AB else (snd AB, fst AB))"
    by (simp only: blur_power_temps_def Let_def AB_def)
  have rn: "radius \<noteq> 0" using r by simp
  have pn: "p \<noteq> 0" using p by simp
  show ?thesis
  proof (cases "p > 1")
    case True
    then have p2: "p' = 2" using sp by simp
    have res: "?m' = blur m2 dst dst_step a' 1 len radius"
      using rn pn pp p2 by (simp add: blur_power_def Let_def m1_def)
    have d: "run ?m' dst dst_step len = blur_list radius len (fst AB)"
      unfolding res blur_refines[OF r0 r(2) ds da', of m2] sp3 ..
    have ta: "run ?m' a 1 ?E = run m2 a 1 ?E"
      unfolding res by (rule blur_keeps_run[OF r0 r(2) ds da' da])
    have tb: "run ?m' b 1 ?E = run m2 b 1 ?E"
      unfolding res by (rule blur_keeps_run[OF r0 r(2) ds da' db])
    have f3: "\<And>c. c \<notin> cells dst dst_step len \<Longrightarrow> ?m' c = m2 c"
      unfolding res by (rule blur_frame_cells[OF r0 r(2) ds da'])
    show ?thesis
      unfolding L T using d ta tb t2 f3 f2 True by simp
  next
    case False
    then have p1: "p = 1" "p' = 1" "a' = a" using p sp by auto
    have da1: "cells a 1 len \<inter> cells dst dst_step len = {}" using da al by blast
    have res: "?m' = snd (for_loop (\<lambda>i m. m(dst + i * dst_step := m (a + i))) len (0, m2))"
      using rn pn pp p1 by (simp add: blur_power_def Let_def m1_def)
    have cp: "(\<forall>i. 0 \<le> i \<and> i < len \<longrightarrow> ?m' (dst + i * dst_step) = m2 (a + i)) \<and>
              (\<forall>c. c \<notin> cells dst dst_step len \<longrightarrow> ?m' c = m2 c)"
      unfolding res using copy_loop_spec[OF ds da1, of m2] by simp
    have "run ?m' dst dst_step len = run m2 a 1 len"
      by (rule run_cong) (use cp in simp)
    also have "\<dots> = take (nat len) (run m2 a 1 ?E)"
      by (simp add: take_run[OF len_le_ext])
    finally have d: "run ?m' dst dst_step len = take (nat len) (fst AB)"
      using sp3 p1 by simp
    have ta: "run ?m' a 1 ?E = run m2 a 1 ?E"
      by (rule run_frame[symmetric]) (use cp da in auto)
    have tb: "run ?m' b 1 ?E = run m2 b 1 ?E"
      by (rule run_frame[symmetric]) (use cp db in auto)
    show ?thesis
      unfolding L T using d ta tb t2 cp f2 False by simp
  qed
qed


lemma ext_proper: "2 * radius < len \<Longrightarrow> ext len radius = len"
  by (simp add: ext_def)

lemma fst_pp_list_proper:
  assumes "length A = nat len" "length B = nat len"
  shows "fst (pp_list radius len k (A, B)) = ((blur_list radius len) ^^ k) A"
  using assms
proof (induction k arbitrary: A B)
  case 0
  then show ?case by simp
next
  case (Suc k)
  have "fst (pp_list radius len (Suc k) (A, B)) = fst (pp_list radius len k (blur_list radius len A, A))"
    using Suc.prems by simp
  also have "\<dots> = ((blur_list radius len) ^^ k) (blur_list radius len A)"
    by (rule Suc.IH) (use Suc.prems in simp_all)
  finally show ?case by (simp add: funpow_swap1)
qed

lemma blur_power_list_proper:
  assumes "length S = nat len" "length A = nat len" "length B = nat len" "1 \<le> p"
  shows "blur_power_list radius len p S A B = ((blur_list radius len) ^^ nat p) S"
proof (cases "p > 1")
  case True
  then have "nat p = Suc (Suc (nat (p - 2)))" by simp
  then show ?thesis
    using True assms
    by (simp add: blur_power_list_def Let_def fst_pp_list_proper funpow_swap1)
next
  case False
  then have "p = 1" using assms by simp
  then show ?thesis using assms by (simp add: blur_power_list_def Let_def)
qed

lemma blur_power_run:
  fixes m :: mem
  assumes r: "1 \<le> radius" "2 * radius < len" and p: "1 \<le> p" and ds: "dst_step \<noteq> 0"
    and ab: "cells a 1 len \<inter> cells b 1 len = {}"
    and sa: "cells src src_step len \<inter> cells a 1 len = {}"
    and da: "cells a 1 len \<inter> cells dst dst_step len = {}"
    and db: "cells b 1 len \<inter> cells dst dst_step len = {}"
  shows "run (blur_power m dst dst_step src src_step len radius p (a, b)) dst dst_step len
           = ((blur_list radius len) ^^ nat p) (run m src src_step len)"
    and "\<And>c. c \<notin> cells dst dst_step len \<union> cells a 1 len \<union> cells b 1 len \<Longrightarrow>
               blur_power m dst dst_step src src_step len radius p (a, b) c = m c"
proof -
  have E: "ext len radius = len" using r by (simp add: ext_def)
  have rl: "radius < len" using r by simp
  note sp = blur_power_spec[OF r(1) rl p ds, of a b src src_step, unfolded E, OF ab sa da db, of m]
  show "run (blur_power m dst dst_step src src_step len radius p (a, b)) dst dst_step len
           = ((blur_list radius len) ^^ nat p) (run m src src_step len)"
    using sp p by (simp add: blur_power_list_proper)
  show "\<And>c. c \<notin> cells dst dst_step len \<union> cells a 1 len \<union> cells b 1 len \<Longrightarrow>
               blur_power m dst dst_step src src_step len radius p (a, b) c = m c"
    using sp by blast
qed

lemma blur_run_eq:
  assumes r: "0 \<le> radius" "2 * radius < int (length xs)"
  shows "blur_run radius xs = blur_list radius (int (length xs)) xs"
proof -
  let ?len = "int (length xs)"
  let ?m = "store_of xs"
  have E: "ext ?len radius = ?len" using r by (simp add: ext_def)
  have rl: "radius < ?len" using r by simp
  have dj: "cells 0 1 (ext ?len radius) \<inter> cells ?len 1 ?len = {}"
    unfolding E by (auto simp: cells_unit_iff)
  have src: "run ?m 0 1 ?len = xs"
    by (rule nth_equalityI) (simp_all add: run_nth store_of_def)
  have "run (blur ?m ?len 1 0 1 ?len radius) ?len 1 ?len = blur_list radius ?len (run ?m 0 1 (ext ?len radius))"
    by (rule blur_refines[OF r(1) rl _ dj]) simp
  then show ?thesis by (simp add: blur_run_def Let_def E src)
qed

lemma blur_run_length [simp]: "length (blur_run radius xs) = length xs"
  by (simp add: blur_run_def Let_def)

lemma blur_run_funpow:
  assumes r: "0 \<le> radius" "2 * radius < len" and l: "length xs = nat len"
  shows "((blur_list radius len) ^^ n) xs = ((blur_run radius) ^^ n) xs"
proof (induction n)
  case 0
  show ?case by simp
next
  case (Suc n)
  have len: "length (((blur_run radius) ^^ n) xs) = nat len"
    by (induction n) (simp_all add: l)
  have "int (length (((blur_run radius) ^^ n) xs)) = len" using len r by simp
  then show ?case using Suc r blur_run_eq[of radius "((blur_run radius) ^^ n) xs"] by simp
qed

text \<open>
  For a radius of at least 1 whose window fits the run and a power of at least 1,
  \<open>blur_power\<close> leaves in the destination run the 1-D blur \<open>blur_run\<close> applied \<open>power\<close>
  times in sequence to the source run; for power 1 that is what a single \<open>blur\<close> from the
  source into a destination apart from it leaves there.
\<close>

lemma blur_power_iterated:
  fixes m :: mem
  assumes r: "1 \<le> radius" "2 * radius < len" and p: "1 \<le> p" and ds: "dst_step \<noteq> 0"
    and ab: "cells a 1 len \<inter> cells b 1 len = {}"
    and sa: "cells src src_step len \<inter> cells a 1 len = {}"
    and da: "cells a 1 len \<inter> cells dst dst_step len = {}"
    and db: "cells b 1 len \<inter> cells dst dst_step len = {}"
  shows "run (blur_power m dst dst_step src src_step len radius p (a, b)) dst dst_step len
           = ((blur_run radius) ^^ nat p) (run m src src_step len)
         \<and> (p = 1 \<and> cells src src_step len \<inter> cells dst dst_step len = {} \<longrightarrow>
              run (blur_power m dst dst_step src src_step len radius p (a, b)) dst dst_step len
              = run (blur m dst dst_step src src_step len radius) dst dst_step len)"
proof -
  have r0: "0 \<le> radius" and rl: "radius < len" using r by simp_all
  have E: "ext len radius = len" using r by (simp add: ext_def)
  have main: "run (blur_power m dst dst_step src src_step len radius p (a, b)) dst dst_step len
           = ((blur_list radius len) ^^ nat p) (run m src src_step len)"
    by (rule blur_power_run(1)[OF r p ds ab sa da db])
  have one: "run (blur_power m dst dst_step src src_step len radius p (a, b)) dst dst_step len
              = run (blur m dst dst_step src src_step len radius) dst dst_step len"
    if "p = 1" "cells src src_step len \<inter> cells dst dst_step len = {}"
    using main that blur_refines[OF r0 rl ds, of src src_step dst m] by (simp add: E)
  show ?thesis
    using main one blur_run_funpow[OF r0 r(2), of "run m src src_step len" "nat p"] by simp
qed

lemma blur_list_vec: "blur_list 1 7 [0, 0, 0, 255, 0, 0, 0] = [0, 0, 85, 85, 85, 0, 0]"
  by code_simp

section \<open>Passes over the rows and the columns of a plane\<close>

lemma runs_loop:
  fixes step :: "int \<Rightarrow> mem \<Rightarrow> mem" and dp sp :: "int \<Rightarrow> addr" and m :: mem
  assumes stepR: "\<And>i m. 0 \<le> i \<Longrightarrow> i < n \<Longrightarrow>
                    run (step i m) (dp i) ds len = F (run m (sp i) ss slen)"
    and stepF: "\<And>i m c. 0 \<le> i \<Longrightarrow> i < n \<Longrightarrow> c \<notin> cells (dp i) ds len \<union> T \<Longrightarrow> step i m c = m c"
    and SD: "\<And>i j. 0 \<le> i \<Longrightarrow> i < n \<Longrightarrow> 0 \<le> j \<Longrightarrow> j < n \<Longrightarrow> i \<noteq> j \<Longrightarrow>
                cells (sp j) ss slen \<inter> cells (dp i) ds len = {}"
    and DD: "\<And>i j. 0 \<le> i \<Longrightarrow> i < n \<Longrightarrow> 0 \<le> j \<Longrightarrow> j < n \<Longrightarrow> i \<noteq> j \<Longrightarrow>
                cells (dp j) ds len \<inter> cells (dp i) ds len = {}"
    and TS: "\<And>i. 0 \<le> i \<Longrightarrow> i < n \<Longrightarrow> cells (sp i) ss slen \<inter> T = {}"
    and TD: "\<And>i. 0 \<le> i \<Longrightarrow> i < n \<Longrightarrow> cells (dp i) ds len \<inter> T = {}"
  shows "(\<forall>i. 0 \<le> i \<and> i < n \<longrightarrow>
            run (snd (for_loop step n (0, m))) (dp i) ds len = F (run m (sp i) ss slen))
       \<and> (\<forall>c. c \<notin> (\<Union>i\<in>{0..<n}. cells (dp i) ds len) \<union> T \<longrightarrow>
            snd (for_loop step n (0, m)) c = m c)"
proof -
  let ?I = "\<lambda>k mk. 0 \<le> k
      \<and> (\<forall>i. 0 \<le> i \<and> i < k \<longrightarrow> run mk (dp i) ds len = F (run m (sp i) ss slen))
      \<and> (\<forall>c. c \<notin> (\<Union>i\<in>{0..<k}. cells (dp i) ds len) \<union> T \<longrightarrow> mk c = m c)"
  have "?I (max 0 n) (snd (for_loop step n (0, m))) \<and> fst (for_loop step n (0, m)) = max 0 n"
  proof (rule for_loop_rule[where I = ?I])
    show "?I 0 m" by auto
  next
    fix k :: int and mk :: mem
    assume k: "0 \<le> k" "k < n" and I: "?I k mk"
    have fr: "\<And>c. c \<notin> (\<Union>i\<in>{0..<k}. cells (dp i) ds len) \<union> T \<Longrightarrow> mk c = m c"
      using I by blast
    have old: "run (step k mk) (dp i) ds len = F (run m (sp i) ss slen)" if i: "0 \<le> i" "i < k" for i
    proof -
      have "cells (dp i) ds len \<inter> (cells (dp k) ds len \<union> T) = {}"
        using DD[of k i] TD[of i] i k by auto
      then have "run (step k mk) (dp i) ds len = run mk (dp i) ds len"
        by (intro run_frame stepF[OF k]) blast
      then show ?thesis using I i by simp
    qed
    have new: "run (step k mk) (dp k) ds len = F (run m (sp k) ss slen)"
    proof -
      have "\<forall>i\<in>{0..<k}. cells (sp k) ss slen \<inter> cells (dp i) ds len = {}"
        using SD[of _ k] k by simp
      then have "cells (sp k) ss slen \<inter> ((\<Union>i\<in>{0..<k}. cells (dp i) ds len) \<union> T) = {}"
        using TS[OF k] by blast
      then have "run mk (sp k) ss slen = run m (sp k) ss slen"
        by (intro run_frame fr) blast
      then show ?thesis using stepR[OF k, of mk] by simp
    qed
    have frame: "step k mk c = m c"
      if c: "c \<notin> (\<Union>i\<in>{0..<k + 1}. cells (dp i) ds len) \<union> T" for c
    proof -
      have "c \<notin> cells (dp k) ds len \<union> T" using c k by auto
      then have "step k mk c = mk c" by (rule stepF[OF k])
      moreover have "c \<notin> (\<Union>i\<in>{0..<k}. cells (dp i) ds len) \<union> T" using c by auto
      ultimately show ?thesis using fr by simp
    qed
    have all: "run (step k mk) (dp i) ds len = F (run m (sp i) ss slen)" if "0 \<le> i" "i < k + 1" for i
      using that old new by (cases "i = k") auto
    show "?I (k + 1) (step k mk)" using k all frame by simp
  qed
  then show ?thesis by (auto simp: max_def split: if_splits)
qed


lemma stride_inj:
  fixes ls :: int
  assumes w: "w \<le> \<bar>ls\<bar>" and i: "0 \<le> i" "i < w" and j: "0 \<le> j" "j < w"
    and eq: "y * ls + i = y' * ls + j"
  shows "y = y' \<and> i = j"
proof (cases "y = y'")
  case True
  then show ?thesis using eq by simp
next
  case False
  have "(y - y') * ls = j - i" using eq by (simp add: algebra_simps)
  then have "\<bar>y - y'\<bar> * \<bar>ls\<bar> = \<bar>j - i\<bar>" by (simp add: abs_mult[symmetric])
  moreover have "1 * \<bar>ls\<bar> \<le> \<bar>y - y'\<bar> * \<bar>ls\<bar>"
    by (rule mult_right_mono) (use False in auto)
  ultimately have "\<bar>ls\<bar> \<le> \<bar>j - i\<bar>" by simp
  then show ?thesis using w i j by linarith
qed

lemma cells_iff: "c \<in> cells p step n \<longleftrightarrow> (\<exists>i. 0 \<le> i \<and> i < n \<and> c = p + i * step)"
  by (auto simp: cells_def)

lemma row_cells_sub: "0 \<le> y \<Longrightarrow> y < h \<Longrightarrow> cells (p + y * ls) 1 w \<subseteq> plane_cells p ls w h"
  by (auto simp: plane_cells_def)

lemma col_cells_sub:
  assumes "0 \<le> x" "x < w"
  shows "cells (p + x) ls h \<subseteq> plane_cells p ls w h"
proof
  fix c assume "c \<in> cells (p + x) ls h"
  then obtain i where i: "0 \<le> i" "i < h" "c = p + x + i * ls" by (auto simp: cells_iff)
  have "(p + i * ls) + x * 1 \<in> cells (p + i * ls) 1 w" by (rule cellsI) (use assms in auto)
  then have "c \<in> cells (p + i * ls) 1 w" using i by (simp add: algebra_simps)
  then show "c \<in> plane_cells p ls w h" using i by (auto simp: plane_cells_def)
qed

lemma plane_cells_iff:
  "c \<in> plane_cells p ls w h \<longleftrightarrow> (\<exists>x y. 0 \<le> x \<and> x < w \<and> 0 \<le> y \<and> y < h \<and> c = p + y * ls + x)"
proof
  assume "c \<in> plane_cells p ls w h"
  then obtain y where y: "0 \<le> y" "y < h" "c \<in> cells (p + y * ls) 1 w"
    by (auto simp: plane_cells_def)
  then obtain x where "0 \<le> x" "x < w" "c = p + y * ls + x * 1" by (auto simp: cells_iff)
  then show "\<exists>x y. 0 \<le> x \<and> x < w \<and> 0 \<le> y \<and> y < h \<and> c = p + y * ls + x"
    using y by auto
next
  assume "\<exists>x y. 0 \<le> x \<and> x < w \<and> 0 \<le> y \<and> y < h \<and> c = p + y * ls + x"
  then obtain x y where xy: "0 \<le> x" "x < w" "0 \<le> y" "y < h" "c = p + y * ls + x" by blast
  have "(p + y * ls) + x * 1 \<in> cells (p + y * ls) 1 w" by (rule cellsI) (use xy in auto)
  then show "c \<in> plane_cells p ls w h" using xy row_cells_sub[of y h p ls w] by auto
qed

lemma rows_disjoint:
  assumes "w \<le> \<bar>ls\<bar>" "y \<noteq> y'"
  shows "cells (p + y * ls) 1 w \<inter> cells (p + y' * ls) 1 w = {}"
proof -
  have False if "0 \<le> i" "i < w" "0 \<le> j" "j < w" "p + y * ls + i * 1 = p + y' * ls + j * 1" for i j
    using stride_inj[OF assms(1) that(1-4), of y y'] that(5) assms(2) by simp
  then show ?thesis by (auto simp: cells_iff)
qed

lemma cols_disjoint:
  assumes "w \<le> \<bar>ls\<bar>" "0 \<le> x" "x < w" "0 \<le> x'" "x' < w" "x \<noteq> x'"
  shows "cells (p + x) ls h \<inter> cells (p + x') ls h = {}"
proof -
  have False if "p + x + i * ls = p + x' + j * ls" for i j
    using stride_inj[OF assms(1-5), of i j] that assms(6) by simp
  then show ?thesis by (auto simp: cells_iff)
qed

lemma blur_power_copy:
  fixes m :: mem
  assumes z: "radius = 0 \<or> p = 0" and ds: "dst_step \<noteq> 0"
    and dj: "cells src src_step len \<inter> cells dst dst_step len = {} \<or> (src = dst \<and> src_step = dst_step)"
  shows "run (blur_power m dst dst_step src src_step len radius p t) dst dst_step len
           = run m src src_step len"
    and "\<And>c. c \<notin> cells dst dst_step len \<Longrightarrow>
           blur_power m dst dst_step src src_step len radius p t c = m c"
proof -
  let ?m' = "blur_power m dst dst_step src src_step len radius p t"
  have res: "?m' = snd (for_loop (\<lambda>i m. m(dst + i * dst_step := m (src + i * src_step))) len (0, m))"
    using z by (auto simp: blur_power_def Let_def)
  have both: "(\<forall>i. 0 \<le> i \<and> i < len \<longrightarrow> ?m' (dst + i * dst_step) = m (src + i * src_step))
      \<and> (\<forall>c. c \<notin> cells dst dst_step len \<longrightarrow> ?m' c = m c)"
  proof (cases "src = dst \<and> src_step = dst_step")
    case True
    then have "?m' = m" unfolding res using copy_loop_same[of dst dst_step len m] by simp
    then show ?thesis using True by simp
  next
    case False
    then have "cells src src_step len \<inter> cells dst dst_step len = {}" using dj by blast
    then show ?thesis unfolding res by (rule copy_loop_spec[OF ds])
  qed
  show "run ?m' dst dst_step len = run m src src_step len"
    by (rule run_cong) (use both in simp)
  show "\<And>c. c \<notin> cells dst dst_step len \<Longrightarrow> ?m' c = m c" using both by blast
qed


lemma plane_cells_cols: "(\<Union>x\<in>{0..<w}. cells (p + x) ls h) = plane_cells p ls w h"
proof
  show "(\<Union>x\<in>{0..<w}. cells (p + x) ls h) \<subseteq> plane_cells p ls w h"
    using col_cells_sub[of _ w p ls h] by fastforce
next
  show "plane_cells p ls w h \<subseteq> (\<Union>x\<in>{0..<w}. cells (p + x) ls h)"
  proof
    fix c assume "c \<in> plane_cells p ls w h"
    then obtain x y where xy: "0 \<le> x" "x < w" "0 \<le> y" "y < h" "c = p + y * ls + x"
      unfolding plane_cells_iff by blast
    have "(p + x) + y * ls \<in> cells (p + x) ls h" by (rule cellsI) (use xy in auto)
    then show "c \<in> (\<Union>x\<in>{0..<w}. cells (p + x) ls h)" using xy by (auto simp: algebra_simps)
  qed
qed

lemma hblur_rows:
  fixes m :: mem
  assumes r: "1 \<le> radius" "2 * radius < w" and p: "1 \<le> p"
    and wf: "w \<le> \<bar>dls\<bar>"
    and pl: "plane_cells src sls w h \<inter> plane_cells dst dls w h = {}"
    and ab: "cells a 1 w \<inter> cells b 1 w = {}"
    and tp: "(cells a 1 w \<union> cells b 1 w) \<inter> (plane_cells src sls w h \<union> plane_cells dst dls w h) = {}"
  shows "(\<forall>y. 0 \<le> y \<and> y < h \<longrightarrow>
            run (hblur m dst dls src sls w h radius p (a, b)) (dst + y * dls) 1 w
              = ((blur_list radius w) ^^ nat p) (run m (src + y * sls) 1 w))
       \<and> (\<forall>c. c \<notin> plane_cells dst dls w h \<union> (cells a 1 w \<union> cells b 1 w) \<longrightarrow>
            hblur m dst dls src sls w h radius p (a, b) c = m c)"
proof -
  let ?step = "\<lambda>y m. blur_power m (dst + y * dls) 1 (src + y * sls) 1 w radius p (a, b)"
  let ?T = "cells a 1 w \<union> cells b 1 w"
  have res: "hblur m dst dls src sls w h radius p (a, b) = snd (for_loop ?step h (0, m))"
    using r by (simp add: hblur_def)
  have one: "(1::int) \<noteq> 0" by simp
  have S: "cells (src + y * sls) 1 w \<subseteq> plane_cells src sls w h" if "0 \<le> y" "y < h" for y
    using that by (rule row_cells_sub)
  have D: "cells (dst + y * dls) 1 w \<subseteq> plane_cells dst dls w h" if "0 \<le> y" "y < h" for y
    using that by (rule row_cells_sub)
  have "(\<forall>i. 0 \<le> i \<and> i < h \<longrightarrow>
            run (snd (for_loop ?step h (0, m))) (dst + i * dls) 1 w
              = ((blur_list radius w) ^^ nat p) (run m (src + i * sls) 1 w))
       \<and> (\<forall>c. c \<notin> (\<Union>i\<in>{0..<h}. cells (dst + i * dls) 1 w) \<union> ?T \<longrightarrow>
            snd (for_loop ?step h (0, m)) c = m c)"
  proof (rule runs_loop[where step = ?step and dp = "\<lambda>y. dst + y * dls" and sp = "\<lambda>y. src + y * sls"
        and T = ?T and F = "(blur_list radius w) ^^ nat p"])
    fix i :: int and m :: mem assume i: "0 \<le> i" "i < h"
    have sa: "cells (src + i * sls) 1 w \<inter> cells a 1 w = {}" using S[OF i] tp by blast
    have da: "cells a 1 w \<inter> cells (dst + i * dls) 1 w = {}" using D[OF i] tp by blast
    have db: "cells b 1 w \<inter> cells (dst + i * dls) 1 w = {}" using D[OF i] tp by blast
    show "run (?step i m) (dst + i * dls) 1 w = ((blur_list radius w) ^^ nat p) (run m (src + i * sls) 1 w)"
      by (rule blur_power_run(1)[OF r p one ab sa da db])
    fix c assume "c \<notin> cells (dst + i * dls) 1 w \<union> ?T"
    then show "?step i m c = m c"
      using blur_power_run(2)[OF r p one ab sa da db, of c m] by blast
  next
    fix i j :: int assume ij: "0 \<le> i" "i < h" "0 \<le> j" "j < h" "i \<noteq> j"
    show "cells (src + j * sls) 1 w \<inter> cells (dst + i * dls) 1 w = {}"
      using S[of j] D[of i] ij pl by blast
    show "cells (dst + j * dls) 1 w \<inter> cells (dst + i * dls) 1 w = {}"
      using rows_disjoint[OF wf, of j i dst] ij by simp
  next
    fix i :: int assume i: "0 \<le> i" "i < h"
    show "cells (src + i * sls) 1 w \<inter> ?T = {}" using S[OF i] tp by blast
    show "cells (dst + i * dls) 1 w \<inter> ?T = {}" using D[OF i] tp by blast
  qed
  then show ?thesis unfolding res by (simp add: plane_cells_def)
qed


lemma vblur_cols:
  fixes m :: mem
  assumes r: "1 \<le> radius" "2 * radius < h" and p: "1 \<le> p"
    and wf: "w \<le> \<bar>dls\<bar>"
    and pl: "(src = dst \<and> sls = dls) \<or> plane_cells src sls w h \<inter> plane_cells dst dls w h = {}"
    and ab: "cells a 1 h \<inter> cells b 1 h = {}"
    and tp: "(cells a 1 h \<union> cells b 1 h) \<inter> (plane_cells src sls w h \<union> plane_cells dst dls w h) = {}"
  shows "(\<forall>x. 0 \<le> x \<and> x < w \<longrightarrow>
            run (vblur m dst dls src sls w h radius p (a, b)) (dst + x) dls h
              = ((blur_list radius h) ^^ nat p) (run m (src + x) sls h))
       \<and> (\<forall>c. c \<notin> plane_cells dst dls w h \<union> (cells a 1 h \<union> cells b 1 h) \<longrightarrow>
            vblur m dst dls src sls w h radius p (a, b) c = m c)"
proof -
  let ?step = "\<lambda>x m. blur_power m (dst + x) dls (src + x) sls h radius p (a, b)"
  let ?T = "cells a 1 h \<union> cells b 1 h"
  have res: "vblur m dst dls src sls w h radius p (a, b) = snd (for_loop ?step w (0, m))"
    using r by (simp add: vblur_def)
  have S: "cells (src + x) sls h \<subseteq> plane_cells src sls w h" if "0 \<le> x" "x < w" for x
    using that by (rule col_cells_sub)
  have D: "cells (dst + x) dls h \<subseteq> plane_cells dst dls w h" if "0 \<le> x" "x < w" for x
    using that by (rule col_cells_sub)
  have "(\<forall>i. 0 \<le> i \<and> i < w \<longrightarrow>
            run (snd (for_loop ?step w (0, m))) (dst + i) dls h
              = ((blur_list radius h) ^^ nat p) (run m (src + i) sls h))
       \<and> (\<forall>c. c \<notin> (\<Union>i\<in>{0..<w}. cells (dst + i) dls h) \<union> ?T \<longrightarrow>
            snd (for_loop ?step w (0, m)) c = m c)"
  proof (rule runs_loop[where step = ?step and dp = "\<lambda>x. dst + x" and sp = "\<lambda>x. src + x"
        and T = ?T and F = "(blur_list radius h) ^^ nat p"])
    fix i :: int and m :: mem assume i: "0 \<le> i" "i < w"
    have ds: "dls \<noteq> 0" using wf i by auto
    have sa: "cells (src + i) sls h \<inter> cells a 1 h = {}" using S[OF i] tp by blast
    have da: "cells a 1 h \<inter> cells (dst + i) dls h = {}" using D[OF i] tp by blast
    have db: "cells b 1 h \<inter> cells (dst + i) dls h = {}" using D[OF i] tp by blast
    show "run (?step i m) (dst + i) dls h = ((blur_list radius h) ^^ nat p) (run m (src + i) sls h)"
      by (rule blur_power_run(1)[OF r p ds ab sa da db])
    fix c assume "c \<notin> cells (dst + i) dls h \<union> ?T"
    then show "?step i m c = m c"
      using blur_power_run(2)[OF r p ds ab sa da db, of c m] by blast
  next
    fix i j :: int assume ij: "0 \<le> i" "i < w" "0 \<le> j" "j < w" "i \<noteq> j"
    have dd: "cells (dst + j) dls h \<inter> cells (dst + i) dls h = {}"
      using cols_disjoint[OF wf, of j i dst h] ij by simp
    show "cells (dst + j) dls h \<inter> cells (dst + i) dls h = {}" by (rule dd)
    show "cells (src + j) sls h \<inter> cells (dst + i) dls h = {}"
    proof (cases "src = dst \<and> sls = dls")
      case True
      then show ?thesis using dd by simp
    next
      case False
      then show ?thesis using S[of j] D[of i] ij pl by blast
    qed
  next
    fix i :: int assume i: "0 \<le> i" "i < w"
    show "cells (src + i) sls h \<inter> ?T = {}" using S[OF i] tp by blast
    show "cells (dst + i) dls h \<inter> ?T = {}" using D[OF i] tp by blast
  qed
  then show ?thesis unfolding res by (simp add: plane_cells_cols)
qed

lemma hblur_copy:
  fixes m :: mem
  assumes z: "radius = 0 \<or> p = 0"
    and wf: "w \<le> \<bar>dls\<bar>"
    and pl: "plane_cells src sls w h \<inter> plane_cells dst dls w h = {}"
  shows "(\<forall>y. 0 \<le> y \<and> y < h \<longrightarrow>
            run (hblur m dst dls src sls w h radius p t) (dst + y * dls) 1 w
              = run m (src + y * sls) 1 w)
       \<and> (\<forall>c. c \<notin> plane_cells dst dls w h \<longrightarrow> hblur m dst dls src sls w h radius p t c = m c)"
proof (cases "0 < w \<and> 0 < h")
  case False
  have "plane_cells dst dls w h = {}" using False by (auto simp: plane_cells_iff)
  have e: "snd (for_loop (\<lambda>y m. blur_power m (dst + y * dls) 1 (src + y * sls) 1 w radius p t) h (0, m)) c = m c" for c
  proof -
    let ?step = "\<lambda>y m. blur_power m (dst + y * dls) 1 (src + y * sls) 1 w radius p t"
    let ?I = "\<lambda>(k::int) (mk::mem). mk = m"
    have st: "?step y m = m" if "0 \<le> y" "y < h" for y
    proof (rule ext)
      fix c
      have "w \<le> 0" using False that by auto
      then have "cells (dst + y * dls) 1 w = {}" by (auto simp: cells_iff)
      then show "?step y m c = m c"
        using blur_power_copy(2)[OF z, of 1 "src + y * sls" 1 w "dst + y * dls" c m t]
        by (auto simp: cells_iff)
    qed
    have "?I (max 0 h) (snd (for_loop ?step h (0, m))) \<and> fst (for_loop ?step h (0, m)) = max 0 h"
      by (rule for_loop_rule[where I = ?I]) (use st in auto)
    then show ?thesis by simp
  qed
  have "hblur m dst dls src sls w h radius p t c = m c" for c
    using e by (simp add: hblur_def)
  then have "hblur m dst dls src sls w h radius p t = m" by (rule ext)
  moreover have "run m (dst + y * dls) 1 w = run m (src + y * sls) 1 w" if "0 \<le> y" "y < h" for y
    using False that by (simp add: run_def)
  ultimately show ?thesis by simp
next
  case True
  let ?step = "\<lambda>y m. blur_power m (dst + y * dls) 1 (src + y * sls) 1 w radius p t"
  have "src + 0 * sls + 0 \<in> plane_cells src sls w h" "dst + 0 * dls + 0 \<in> plane_cells dst dls w h"
    unfolding plane_cells_iff using True by blast+
  then have ne: "dst \<noteq> src" using pl by auto
  have res: "hblur m dst dls src sls w h radius p t = snd (for_loop ?step h (0, m))"
    using ne by (simp add: hblur_def)
  have one: "(1::int) \<noteq> 0" by simp
  have S: "cells (src + y * sls) 1 w \<subseteq> plane_cells src sls w h" if "0 \<le> y" "y < h" for y
    using that by (rule row_cells_sub)
  have D: "cells (dst + y * dls) 1 w \<subseteq> plane_cells dst dls w h" if "0 \<le> y" "y < h" for y
    using that by (rule row_cells_sub)
  have "(\<forall>i. 0 \<le> i \<and> i < h \<longrightarrow>
            run (snd (for_loop ?step h (0, m))) (dst + i * dls) 1 w
              = (\<lambda>xs. xs) (run m (src + i * sls) 1 w))
       \<and> (\<forall>c. c \<notin> (\<Union>i\<in>{0..<h}. cells (dst + i * dls) 1 w) \<union> {} \<longrightarrow>
            snd (for_loop ?step h (0, m)) c = m c)"
  proof (rule runs_loop[where step = ?step and dp = "\<lambda>y. dst + y * dls" and sp = "\<lambda>y. src + y * sls"
        and T = "{}" and F = "\<lambda>xs. xs"])
    fix i :: int and m :: mem assume i: "0 \<le> i" "i < h"
    have sd: "cells (src + i * sls) 1 w \<inter> cells (dst + i * dls) 1 w = {}"
      using S[OF i] D[OF i] pl by blast
    show "run (?step i m) (dst + i * dls) 1 w = run m (src + i * sls) 1 w"
      by (rule blur_power_copy(1)[OF z one]) (use sd in simp)
    fix c assume "c \<notin> cells (dst + i * dls) 1 w \<union> {}"
    then show "?step i m c = m c"
      using blur_power_copy(2)[OF z one, of "src + i * sls" 1 w "dst + i * dls" c m t] sd by simp
  next
    fix i j :: int assume ij: "0 \<le> i" "i < h" "0 \<le> j" "j < h" "i \<noteq> j"
    show "cells (src + j * sls) 1 w \<inter> cells (dst + i * dls) 1 w = {}"
      using S[of j] D[of i] ij pl by blast
    show "cells (dst + j * dls) 1 w \<inter> cells (dst + i * dls) 1 w = {}"
      using rows_disjoint[OF wf, of j i dst] ij by simp
  qed simp_all
  then show ?thesis unfolding res by (simp add: plane_cells_def)
qed

lemma vblur_copy_in_place:
  fixes m :: mem
  assumes z: "radius = 0 \<or> p = 0"
  shows "vblur m dst dls dst dls w h radius p t = m"
proof (cases "radius = 0")
  case True
  then show ?thesis by (simp add: vblur_def)
next
  case False
  then have p0: "p = 0" using z by simp
  let ?step = "\<lambda>x m. blur_power m (dst + x) dls (dst + x) dls h radius p t"
  let ?I = "\<lambda>(k::int) (mk::mem). mk = m"
  have st: "?step x m = m" for x
    using p0 copy_loop_same[of "dst + x" dls h m] by (simp add: blur_power_def Let_def)
  have "?I (max 0 w) (snd (for_loop ?step w (0, m))) \<and> fst (for_loop ?step w (0, m)) = max 0 w"
    by (rule for_loop_rule[where I = ?I]) (use st in auto)
  then show ?thesis using False by (simp add: vblur_def)
qed


lemma plane_cell_run:
  assumes "0 \<le> x" "x < w"
  shows "m (p + y * ls + x) = run m (p + y * ls) 1 w ! nat x"
  using assms by (simp add: run_nth)

section \<open>The vertical pass in place\<close>

lemma for_loop_rel:
  assumes "R x s s'"
    and "\<And>x' t t'. x \<le> x' \<Longrightarrow> x' < n \<Longrightarrow> R x' t t' \<Longrightarrow> R (x' + 1) (body x' t) (body' x' t')"
  shows "R (max x n) (snd (for_loop body n (x, s))) (snd (for_loop body' n (x, s')))"
  using assms
proof (induction body n "(x, s)" arbitrary: x s s' rule: for_loop.induct)
  case (1 body n x s)
  show ?case
  proof (cases "x < n")
    case True
    have "R (x + 1) (body x s) (body' x s')" using 1(2) 1(3)[of x s s'] True by simp
    moreover have "\<And>x' t t'. x + 1 \<le> x' \<Longrightarrow> x' < n \<Longrightarrow> R x' t t'
        \<Longrightarrow> R (x' + 1) (body x' t) (body' x' t')"
      using 1(3) by simp
    ultimately have "R (max (x + 1) n) (snd (for_loop body n (x + 1, body x s)))
        (snd (for_loop body' n (x + 1, body' x s')))"
      using 1(1)[OF True] by blast
    moreover have "max (x + 1) n = max x n" using True by simp
    ultimately show ?thesis
      using True by (simp add: for_loop.simps[of body n x s] for_loop.simps[of body' n x s'])
  next
    case False
    then show ?thesis
      using 1(2) by (simp add: for_loop.simps[of body n x s] for_loop.simps[of body' n x s'] max_def)
  qed
qed

lemma for_loop_snoc:
  assumes "x \<le> n"
  shows "for_loop body (n + 1) (x, s) = (n + 1, body n (snd (for_loop body n (x, s))))"
  using assms
proof (induction body n "(x, s)" arbitrary: x s rule: for_loop.induct)
  case (1 body n x s)
  show ?case
  proof (cases "x < n")
    case True
    have "for_loop body (n + 1) (x + 1, body x s)
        = (n + 1, body n (snd (for_loop body n (x + 1, body x s))))"
      using 1(1)[OF True] True by simp
    then show ?thesis
      using True by (simp add: for_loop.simps[of body n x s] for_loop.simps[of body "n + 1" x s])
  next
    case False
    then have "x = n" using 1(2) by simp
    then show ?thesis
      by (simp add: for_loop.simps[of body n n s] for_loop.simps[of body "n + 1" n s]
          for_loop.simps[of body "n + 1" "n + 1"])
  qed
qed

lemma blur_power_rel:
  fixes m1 m2 :: mem
  assumes r: "1 \<le> radius" "radius < len" and p: "1 \<le> p"
    and ds: "ds1 \<noteq> 0" "ds2 \<noteq> 0"
    and ab: "cells a 1 (ext len radius) \<inter> cells b 1 (ext len radius) = {}"
    and sa: "cells src ss (ext len radius) \<inter> cells a 1 (ext len radius) = {}"
    and d1: "cells a 1 (ext len radius) \<inter> cells dst1 ds1 len = {}"
            "cells b 1 (ext len radius) \<inter> cells dst1 ds1 len = {}"
    and d2: "cells a 1 (ext len radius) \<inter> cells dst2 ds2 len = {}"
            "cells b 1 (ext len radius) \<inter> cells dst2 ds2 len = {}"
    and eq: "run m1 src ss (ext len radius) = run m2 src ss (ext len radius)"
            "run m1 a 1 (ext len radius) = run m2 a 1 (ext len radius)"
            "run m1 b 1 (ext len radius) = run m2 b 1 (ext len radius)"
  shows "run (blur_power m1 dst1 ds1 src ss len radius p (a, b)) dst1 ds1 len
         = run (blur_power m2 dst2 ds2 src ss len radius p (a, b)) dst2 ds2 len"
    and "run (blur_power m1 dst1 ds1 src ss len radius p (a, b)) a 1 (ext len radius)
         = run (blur_power m2 dst2 ds2 src ss len radius p (a, b)) a 1 (ext len radius)"
    and "run (blur_power m1 dst1 ds1 src ss len radius p (a, b)) b 1 (ext len radius)
         = run (blur_power m2 dst2 ds2 src ss len radius p (a, b)) b 1 (ext len radius)"
proof -
  note s1 = blur_power_spec[OF r p ds(1) ab sa d1, of m1]
  note s2 = blur_power_spec[OF r p ds(2) ab sa d2, of m2]
  show "run (blur_power m1 dst1 ds1 src ss len radius p (a, b)) dst1 ds1 len
         = run (blur_power m2 dst2 ds2 src ss len radius p (a, b)) dst2 ds2 len"
    using s1 s2 eq by simp
  have "(run (blur_power m1 dst1 ds1 src ss len radius p (a, b)) a 1 (ext len radius),
         run (blur_power m1 dst1 ds1 src ss len radius p (a, b)) b 1 (ext len radius))
      = (run (blur_power m2 dst2 ds2 src ss len radius p (a, b)) a 1 (ext len radius),
         run (blur_power m2 dst2 ds2 src ss len radius p (a, b)) b 1 (ext len radius))"
    using s1 s2 eq by simp
  then show "run (blur_power m1 dst1 ds1 src ss len radius p (a, b)) a 1 (ext len radius)
         = run (blur_power m2 dst2 ds2 src ss len radius p (a, b)) a 1 (ext len radius)"
    and "run (blur_power m1 dst1 ds1 src ss len radius p (a, b)) b 1 (ext len radius)
         = run (blur_power m2 dst2 ds2 src ss len radius p (a, b)) b 1 (ext len radius)"
    by simp_all
qed


lemma cols_apart:
  assumes "w \<le> \<bar>ls\<bar>" "0 \<le> x" "x < w" "0 \<le> x'" "x' < w" "x \<noteq> x'"
  shows "cells (p + x) ls n \<inter> cells (p + x') ls n' = {}"
proof -
  have False if "p + x + i * ls = p + x' + j * ls" for i j
    using stride_inj[OF assms(1-5), of i j] that assms(6) by simp
  then show ?thesis by (auto simp: cells_iff)
qed

lemma vblur_rel:
  fixes m :: mem
  assumes r: "1 \<le> radius" "radius < h" and p: "1 \<le> p"
    and wf: "w \<le> \<bar>ls\<bar>" "w \<le> \<bar>dls\<bar>"
    and pl: "plane_cells src ls w (ext h radius) \<inter> plane_cells dst dls w h = {}"
    and ab: "cells a 1 (ext h radius) \<inter> cells b 1 (ext h radius) = {}"
    and tp: "(cells a 1 (ext h radius) \<union> cells b 1 (ext h radius))
               \<inter> (plane_cells src ls w (ext h radius) \<union> plane_cells dst dls w h) = {}"
    and x: "0 \<le> x" "x < w"
  shows "run (vblur m src ls src ls w h radius p (a, b)) (src + x) ls h
         = run (vblur m dst dls src ls w h radius p (a, b)) (dst + x) dls h"
proof -
  let ?E = "ext h radius"
  let ?s1 = "\<lambda>x m. blur_power m (src + x) ls (src + x) ls h radius p (a, b)"
  let ?s2 = "\<lambda>x m. blur_power m (dst + x) dls (src + x) ls h radius p (a, b)"
  let ?R = "\<lambda>k (M1::mem) (M2::mem). 0 \<le> k
      \<and> run M1 a 1 ?E = run M2 a 1 ?E \<and> run M1 b 1 ?E = run M2 b 1 ?E
      \<and> (\<forall>j. k \<le> j \<and> j < w \<longrightarrow> run M1 (src + j) ls ?E = run M2 (src + j) ls ?E)
      \<and> (\<forall>i. 0 \<le> i \<and> i < k \<longrightarrow> run M1 (src + i) ls h = run M2 (dst + i) dls h)"
  have hE: "h \<le> ?E" by (rule len_le_ext)
  have ah: "cells a 1 h \<subseteq> cells a 1 ?E" and bh: "cells b 1 h \<subseteq> cells b 1 ?E"
    using cells_mono[OF hE] by blast+
  have SE: "cells (src + j) ls ?E \<subseteq> plane_cells src ls w ?E" if "0 \<le> j" "j < w" for j
    using that by (rule col_cells_sub)
  have Sh: "cells (src + j) ls h \<subseteq> plane_cells src ls w ?E" if "0 \<le> j" "j < w" for j
    using SE[OF that] cells_mono[OF hE, of "src + j" ls] by blast
  have Dh: "cells (dst + j) dls h \<subseteq> plane_cells dst dls w h" if "0 \<le> j" "j < w" for j
    using that by (rule col_cells_sub)
  have res1: "vblur m src ls src ls w h radius p (a, b) = snd (for_loop ?s1 w (0, m))"
    using r by (simp add: vblur_def)
  have res2: "vblur m dst dls src ls w h radius p (a, b) = snd (for_loop ?s2 w (0, m))"
    using r by (simp add: vblur_def)
  have "?R (max 0 w) (snd (for_loop ?s1 w (0, m))) (snd (for_loop ?s2 w (0, m)))"
  proof (rule for_loop_rel[where R = ?R])
    show "?R 0 m m" by auto
  next
    fix k :: int and M1 M2 :: mem
    assume k: "0 \<le> k" "k < w" and R: "?R k M1 M2"
    have ls0: "ls \<noteq> 0" and dls0: "dls \<noteq> 0" using wf k by auto
    have sa: "cells (src + k) ls ?E \<inter> cells a 1 ?E = {}" using SE[OF k] tp by blast
    have d1: "cells a 1 ?E \<inter> cells (src + k) ls h = {}" "cells b 1 ?E \<inter> cells (src + k) ls h = {}"
      using Sh[OF k] tp by blast+
    have d2: "cells a 1 ?E \<inter> cells (dst + k) dls h = {}" "cells b 1 ?E \<inter> cells (dst + k) dls h = {}"
      using Dh[OF k] tp by blast+
    have eqS: "run M1 (src + k) ls ?E = run M2 (src + k) ls ?E" using R k by simp
    have eqA: "run M1 a 1 ?E = run M2 a 1 ?E" and eqB: "run M1 b 1 ?E = run M2 b 1 ?E"
      using R by simp_all
    note rel = blur_power_rel[OF r p ls0 dls0 ab sa d1 d2 eqS eqA eqB]
    have f1: "?s1 k M1 c = M1 c" if "c \<notin> cells (src + k) ls h \<union> cells a 1 h \<union> cells b 1 h" for c
      using blur_power_spec[OF r p ls0 ab sa d1, of M1] that by blast
    have f2: "?s2 k M2 c = M2 c" if "c \<notin> cells (dst + k) dls h \<union> cells a 1 h \<union> cells b 1 h" for c
      using blur_power_spec[OF r p dls0 ab sa d2, of M2] that by blast
    have later: "run (?s1 k M1) (src + j) ls ?E = run (?s2 k M2) (src + j) ls ?E"
      if j: "k + 1 \<le> j" "j < w" for j
    proof -
      have j0: "0 \<le> j" "j < w" "j \<noteq> k" using j k by simp_all
      have a1: "cells (src + j) ls ?E \<inter> cells (src + k) ls h = {}"
        by (rule cols_apart[OF wf(1)]) (use j0 k in simp_all)
      have a2: "cells (src + j) ls ?E \<inter> (cells a 1 h \<union> cells b 1 h) = {}"
        using SE[OF j0(1,2)] tp ah bh by blast
      have a3: "cells (src + j) ls ?E \<inter> cells (dst + k) dls h = {}"
        using SE[OF j0(1,2)] Dh[OF k] pl by blast
      have "run (?s1 k M1) (src + j) ls ?E = run M1 (src + j) ls ?E"
        by (rule run_frame[symmetric], rule f1[symmetric]) (use a1 a2 in blast)
      moreover have "run (?s2 k M2) (src + j) ls ?E = run M2 (src + j) ls ?E"
        by (rule run_frame[symmetric], rule f2[symmetric]) (use a3 a2 in blast)
      ultimately show ?thesis using R j k by simp
    qed
    have earlier: "run (?s1 k M1) (src + i) ls h = run (?s2 k M2) (dst + i) dls h"
      if i: "0 \<le> i" "i < k + 1" for i
    proof (cases "i = k")
      case True
      then show ?thesis using rel(1) by simp
    next
      case False
      then have i0: "0 \<le> i" "i < w" "i < k" "i \<noteq> k" using i k by simp_all
      have a1: "cells (src + i) ls h \<inter> cells (src + k) ls h = {}"
        by (rule cols_apart[OF wf(1)]) (use i0 k in simp_all)
      have a2: "cells (src + i) ls h \<inter> (cells a 1 h \<union> cells b 1 h) = {}"
        using Sh[OF i0(1,2)] tp ah bh by blast
      have a3: "cells (dst + i) dls h \<inter> cells (dst + k) dls h = {}"
        by (rule cols_apart[OF wf(2)]) (use i0 k in simp_all)
      have a4: "cells (dst + i) dls h \<inter> (cells a 1 h \<union> cells b 1 h) = {}"
        using Dh[OF i0(1,2)] tp ah bh by blast
      have "run (?s1 k M1) (src + i) ls h = run M1 (src + i) ls h"
        by (rule run_frame[symmetric], rule f1[symmetric]) (use a1 a2 in blast)
      moreover have "run (?s2 k M2) (dst + i) dls h = run M2 (dst + i) dls h"
        by (rule run_frame[symmetric], rule f2[symmetric]) (use a3 a4 in blast)
      ultimately show ?thesis using R i0 by simp
    qed
    show "?R (k + 1) (?s1 k M1) (?s2 k M2)"
      using k rel(2,3) later earlier by simp
  qed
  then show ?thesis unfolding res1 res2 using x by (simp add: max_def)
qed


lemma plane_cells_mono: "h \<le> h' \<Longrightarrow> plane_cells p ls w h \<subseteq> plane_cells p ls w h'"
  unfolding plane_cells_def by (rule UN_mono) auto

lemma col_cell_run:
  assumes "0 \<le> y" "y < h"
  shows "m (p + y * ls + x) = run m (p + x) ls h ! nat y"
  using assms by (simp add: run_nth algebra_simps)

lemma vblur_copy:
  fixes m :: mem
  assumes z: "radius = 0 \<or> p = 0"
    and wf: "w \<le> \<bar>dls\<bar>"
    and pl: "plane_cells src sls w h \<inter> plane_cells dst dls w h = {}"
    and x: "0 \<le> x" "x < w"
  shows "run (vblur m dst dls src sls w h radius p t) (dst + x) dls h = run m (src + x) sls h"
proof (cases "0 < h")
  case False
  then show ?thesis by (simp add: run_def)
next
  case True
  let ?step = "\<lambda>x m. blur_power m (dst + x) dls (src + x) sls h radius p t"
  have "src + 0 * sls + 0 \<in> plane_cells src sls w h" "dst + 0 * dls + 0 \<in> plane_cells dst dls w h"
    unfolding plane_cells_iff using True x by force+
  then have ne: "dst \<noteq> src" using pl by auto
  have res: "vblur m dst dls src sls w h radius p t = snd (for_loop ?step w (0, m))"
    using ne by (simp add: vblur_def)
  have ds: "dls \<noteq> 0" using wf x by auto
  have S: "cells (src + x) sls h \<subseteq> plane_cells src sls w h" if "0 \<le> x" "x < w" for x
    using that by (rule col_cells_sub)
  have D: "cells (dst + x) dls h \<subseteq> plane_cells dst dls w h" if "0 \<le> x" "x < w" for x
    using that by (rule col_cells_sub)
  have "(\<forall>i. 0 \<le> i \<and> i < w \<longrightarrow>
            run (snd (for_loop ?step w (0, m))) (dst + i) dls h
              = (\<lambda>xs. xs) (run m (src + i) sls h))
       \<and> (\<forall>c. c \<notin> (\<Union>i\<in>{0..<w}. cells (dst + i) dls h) \<union> {} \<longrightarrow>
            snd (for_loop ?step w (0, m)) c = m c)"
  proof (rule runs_loop[where step = ?step and dp = "\<lambda>x. dst + x" and sp = "\<lambda>x. src + x"
        and T = "{}" and F = "\<lambda>xs. xs"])
    fix i :: int and m :: mem assume i: "0 \<le> i" "i < w"
    have sd: "cells (src + i) sls h \<inter> cells (dst + i) dls h = {}"
      using S[OF i] D[OF i] pl by blast
    show "run (?step i m) (dst + i) dls h = run m (src + i) sls h"
      by (rule blur_power_copy(1)[OF z ds]) (use sd in simp)
    fix c assume "c \<notin> cells (dst + i) dls h \<union> {}"
    then show "?step i m c = m c"
      using blur_power_copy(2)[OF z ds, of "src + i" sls h "dst + i" c m t] sd by simp
  next
    fix i j :: int assume ij: "0 \<le> i" "i < w" "0 \<le> j" "j < w" "i \<noteq> j"
    show "cells (src + j) sls h \<inter> cells (dst + i) dls h = {}"
      using S[of j] D[of i] ij pl by blast
    show "cells (dst + j) dls h \<inter> cells (dst + i) dls h = {}"
      by (rule cols_apart[OF wf]) (use ij in simp_all)
  qed simp_all
  then show ?thesis unfolding res using x by simp
qed

lemma vblur_in_place_frame:
  fixes m :: mem
  assumes r: "1 \<le> radius" "radius < h" and p: "1 \<le> p"
    and wf: "w \<le> \<bar>ls\<bar>"
    and ab: "cells a 1 (ext h radius) \<inter> cells b 1 (ext h radius) = {}"
    and tp: "(cells a 1 (ext h radius) \<union> cells b 1 (ext h radius))
               \<inter> plane_cells src ls w (ext h radius) = {}"
    and c: "c \<notin> plane_cells src ls w h \<union> cells a 1 h \<union> cells b 1 h"
  shows "vblur m src ls src ls w h radius p (a, b) c = m c"
proof -
  let ?E = "ext h radius"
  let ?s1 = "\<lambda>x m. blur_power m (src + x) ls (src + x) ls h radius p (a, b)"
  let ?I = "\<lambda>(k::int) (M::mem). M c = m c"
  have hE: "h \<le> ?E" by (rule len_le_ext)
  have res1: "vblur m src ls src ls w h radius p (a, b) = snd (for_loop ?s1 w (0, m))"
    using r by (simp add: vblur_def)
  have "?I (max 0 w) (snd (for_loop ?s1 w (0, m))) \<and> fst (for_loop ?s1 w (0, m)) = max 0 w"
  proof (rule for_loop_rule[where I = ?I])
    show "?I 0 m" by simp
  next
    fix k :: int and M :: mem
    assume k: "0 \<le> k" "k < w" and I: "?I k M"
    have ls0: "ls \<noteq> 0" using wf k by auto
    have SE: "cells (src + k) ls ?E \<subseteq> plane_cells src ls w ?E" using k by (rule col_cells_sub)
    have Sh: "cells (src + k) ls h \<subseteq> plane_cells src ls w h" using k by (rule col_cells_sub)
    have ShE: "cells (src + k) ls h \<subseteq> plane_cells src ls w ?E"
      using Sh plane_cells_mono[OF hE, of src ls w] by blast
    have sa: "cells (src + k) ls ?E \<inter> cells a 1 ?E = {}" using SE tp by blast
    have d1: "cells a 1 ?E \<inter> cells (src + k) ls h = {}" "cells b 1 ?E \<inter> cells (src + k) ls h = {}"
      using ShE tp by blast+
    have "c \<notin> cells (src + k) ls h \<union> cells a 1 h \<union> cells b 1 h" using c Sh by blast
    then have "?s1 k M c = M c"
      using blur_power_spec[OF r p ls0 ab sa d1, of M] by blast
    then show "?I (k + 1) (?s1 k M)" using I by simp
  qed
  then show ?thesis unfolding res1 by simp
qed


section \<open>The writes of the vertical pass\<close>

lemma for_loop_fst: "fst (for_loop body n (x, s)) = max x n"
  using for_loop_rule[of "\<lambda>_ _. True" x s n body] by simp

lemma writes_snoc: "0 \<le> n \<Longrightarrow> writes p step (n + 1) = writes p step n @ [p + n * step]"
  using upto_rec2[of 0 n] by (simp add: writes_def)

lemma writes_empty: "n \<le> 0 \<Longrightarrow> writes p step n = []"
  by (simp add: writes_def)

lemma set_writes: "set (writes p step n) = cells p step n"
  by (auto simp: writes_def cells_def)

lemma blur_step_t_fst:
  "fst (fst (blur_step_t dst ds src ss iv i j x ts))
     = fst (blur_step dst ds src ss iv i j x (fst (fst ts), snd ts))"
  "snd (blur_step_t dst ds src ss iv i j x ts)
     = snd (blur_step dst ds src ss iv i j x (fst (fst ts), snd ts))"
  "snd (fst (blur_step_t dst ds src ss iv i j x ts)) = snd (fst ts) @ [dst + x * ds]"
  by (simp_all add: blur_step_t_def blur_step_def Let_def st_def)

lemma blur_loop_t:
  assumes "0 \<le> x"
  shows "(let ts' = snd (for_loop (\<lambda>x. blur_step_t dst ds src ss iv (f x) (g x) x) n (x, ts))
          in (fst (fst ts'), snd ts')
               = snd (for_loop (\<lambda>x. blur_step dst ds src ss iv (f x) (g x) x) n (x, fst (fst ts), snd ts))
             \<and> (snd (fst ts) = l @ writes dst ds x \<longrightarrow> snd (fst ts') = l @ writes dst ds (max x n)))"
proof -
  let ?bt = "\<lambda>x. blur_step_t dst ds src ss iv (f x) (g x) x"
  let ?b = "\<lambda>x. blur_step dst ds src ss iv (f x) (g x) x"
  let ?R = "\<lambda>(x'::int) ms ts'. ms = (fst (fst ts'), snd ts')"
  have a: "?R (max x n) (snd (for_loop ?b n (x, fst (fst ts), snd ts))) (snd (for_loop ?bt n (x, ts)))"
  proof (rule for_loop_rel[where R = ?R])
    show "(fst (fst ts), snd ts) = (fst (fst ts), snd ts)" by simp
  next
    fix x' :: int and t :: "mem \<times> int" and t' :: "tmem \<times> int"
    assume "t = (fst (fst t'), snd t')"
    then show "?b x' t = (fst (fst (?bt x' t')), snd (?bt x' t'))"
      by (simp add: blur_step_t_fst)
  qed
  have b: "snd (fst (snd (for_loop ?bt n (x, ts)))) = l @ writes dst ds (max x n)"
    if l: "snd (fst ts) = l @ writes dst ds x"
  proof -
    have "(\<lambda>x' ts'. 0 \<le> x' \<and> snd (fst ts') = l @ writes dst ds x') (max x n) (snd (for_loop ?bt n (x, ts)))
          \<and> fst (for_loop ?bt n (x, ts)) = max x n"
      by (rule for_loop_rule) (use assms l in \<open>auto simp: blur_step_t_fst writes_snoc\<close>)
    then show ?thesis by simp
  qed
  show ?thesis using a b by (simp add: Let_def)
qed

lemma blur_t_spec:
  assumes r: "0 \<le> radius"
  shows "fst (blur_t t dst ds src ss len radius) = blur (fst t) dst ds src ss len radius"
    and "snd (blur_t t dst ds src ss len radius) = snd t @ writes dst ds (max len (radius + 1))"
proof -
  let ?iv = "(push_bit 16 1 + (radius * 2 + 1) sdiv 2) sdiv (radius * 2 + 1)"
  let ?b1 = "\<lambda>x. blur_step_t dst ds src ss ?iv (radius + x) (radius - x) x"
  let ?b2 = "\<lambda>x. blur_step_t dst ds src ss ?iv (radius + x) (x - radius - 1) x"
  let ?b3 = "\<lambda>x. blur_step_t dst ds src ss ?iv (2 * len - radius - x - 1) (x - radius - 1) x"
  let ?c1 = "\<lambda>x. blur_step dst ds src ss ?iv (radius + x) (radius - x) x"
  let ?c2 = "\<lambda>x. blur_step dst ds src ss ?iv (radius + x) (x - radius - 1) x"
  let ?c3 = "\<lambda>x. blur_step dst ds src ss ?iv (2 * len - radius - x - 1) (x - radius - 1) x"
  define s0 where "s0 = snd (for_loop (\<lambda>x sum. sum + push_bit 1 (ld (fst t) (src + x * ss))) radius (0, 0))
                        + ld (fst t) (src + radius * ss)"
  define T1 where "T1 = for_loop ?b1 (radius + 1) (0, t, s0)"
  define T2 where "T2 = for_loop ?b2 (len - radius) (fst T1, snd T1)"
  define T3 where "T3 = for_loop ?b3 len (fst T2, snd T2)"
  define M1 where "M1 = for_loop ?c1 (radius + 1) (0, fst t, s0)"
  define M2 where "M2 = for_loop ?c2 (len - radius) (fst M1, snd M1)"
  define M3 where "M3 = for_loop ?c3 len (fst M2, snd M2)"
  have bt: "blur_t t dst ds src ss len radius = fst (snd T3)"
    by (simp add: blur_t_def Let_def case_prod_beta T3_def T2_def T1_def s0_def)
  have b: "blur (fst t) dst ds src ss len radius = fst (snd M3)"
    by (simp add: blur_def Let_def case_prod_beta M3_def M2_def M1_def s0_def)
  have x1: "fst T1 = radius + 1" "fst M1 = radius + 1"
    using r by (simp_all add: T1_def M1_def for_loop_fst)
  have x2: "fst T2 = max (radius + 1) (len - radius)" "fst M2 = max (radius + 1) (len - radius)"
    by (simp_all add: T2_def M2_def for_loop_fst x1)
  have l1: "(fst (fst (snd T1)), snd (snd T1)) = snd M1
      \<and> snd (fst (snd T1)) = snd t @ writes dst ds (radius + 1)"
    using blur_loop_t[of 0 dst ds src ss ?iv "\<lambda>x. radius + x" "\<lambda>x. radius - x" "radius + 1" "(t, s0)" "snd t"] r
    by (simp add: Let_def T1_def M1_def writes_empty)
  have l2: "(fst (fst (snd T2)), snd (snd T2)) = snd M2
      \<and> snd (fst (snd T2)) = snd t @ writes dst ds (max (radius + 1) (len - radius))"
    using blur_loop_t[of "radius + 1" dst ds src ss ?iv "\<lambda>x. radius + x" "\<lambda>x. x - radius - 1"
        "len - radius" "snd T1" "snd t"] r l1
    by (simp add: Let_def T2_def M2_def x1)
  have l3: "(fst (fst (snd T3)), snd (snd T3)) = snd M3
      \<and> snd (fst (snd T3)) = snd t @ writes dst ds (max (max (radius + 1) (len - radius)) len)"
    using blur_loop_t[of "max (radius + 1) (len - radius)" dst ds src ss ?iv
        "\<lambda>x. 2 * len - radius - x - 1" "\<lambda>x. x - radius - 1" len "snd T2" "snd t"] r l2
    by (simp add: Let_def T3_def M3_def x2)
  have mx: "max (max (radius + 1) (len - radius)) len = max len (radius + 1)" using r by simp
  show "fst (blur_t t dst ds src ss len radius) = blur (fst t) dst ds src ss len radius"
    using l3 by (simp add: bt b prod_eq_iff)
  show "snd (blur_t t dst ds src ss len radius) = snd t @ writes dst ds (max len (radius + 1))"
    using l3 by (simp add: bt mx)
qed


lemma blur_pingpong_t_spec:
  assumes r: "0 \<le> radius" "radius < len"
  shows "case blur_pingpong_t t a b len radius p of (t', a', b', p') \<Rightarrow>
           (fst t', a', b', p') = blur_pingpong (fst t) a b len radius p
           \<and> snd t' = snd t @ pp_writes a b len (nat (p - 2))"
  using assms
proof (induction t a b len radius p rule: blur_pingpong_t.induct)
  case (1 t a b len radius p)
  note r = 1(2,3)
  have mx: "max len (radius + 1) = len" using r by simp
  show ?case
  proof (cases "p > 2")
    case True
    have n: "nat (p - 2) = Suc (nat (p - 1 - 2))" using True by simp
    show ?thesis
      using 1(1)[OF True r] True
      by (simp add: blur_pingpong_t.simps[of t] blur_pingpong.simps[of "fst t"]
          blur_t_spec[OF r(1)] mx n)
  next
    case False
    then show ?thesis
      by (simp add: blur_pingpong_t.simps[of t] blur_pingpong.simps[of "fst t"])
  qed
qed

lemma for_loop_erase:
  fixes t :: tmem
  assumes "\<And>x t. fst (bt x t) = b x (fst t)"
  shows "fst (snd (for_loop bt n (x, t))) = snd (for_loop b n (x, fst t))"
proof -
  have "(\<lambda>(x::int) (m::mem) (t'::tmem). m = fst t') (max x n)
          (snd (for_loop b n (x, fst t))) (snd (for_loop bt n (x, t)))"
  proof (rule for_loop_rel[where R = "\<lambda>(x::int) (m::mem) (t'::tmem). m = fst t'"])
    show "fst t = fst t" by simp
  next
    fix x' :: int and m :: mem and t' :: tmem
    assume "m = fst t'"
    then show "b x' m = fst (bt x' t')" by (simp add: assms)
  qed
  then show ?thesis by simp
qed

lemma for_loop_log:
  fixes t :: tmem
  assumes "\<And>x t. snd (bt x t) = snd t @ W x"
  shows "snd (snd (for_loop bt n (0, t))) = snd t @ concat (map W [0..n - 1])"
proof -
  let ?I = "\<lambda>x' (t'::tmem). 0 \<le> x' \<and> snd t' = snd t @ concat (map W [0..x' - 1])"
  have "?I (max 0 n) (snd (for_loop bt n (0, t))) \<and> fst (for_loop bt n (0, t)) = max 0 n"
  proof (rule for_loop_rule[where I = ?I])
    show "?I 0 t" by simp
  next
    fix x' :: int and s' :: tmem
    assume x: "0 \<le> x'" and i: "?I x' s'"
    have "[0..x' + 1 - 1] = [0..x' - 1] @ [x']" using upto_rec2[of 0 x'] x by simp
    then show "?I (x' + 1) (bt x' s')" using i by (simp add: assms)
  qed
  then show ?thesis by (cases "0 \<le> n") (simp_all add: max_def)
qed

lemma concat_singletons: "concat (map (\<lambda>i. [f i]) xs) = map f xs"
  by (induction xs) simp_all

lemma copy_loop_t:
  fixes t :: tmem
  shows "fst (snd (for_loop (\<lambda>i t. st (dst + i * ds) (fst t (g i)) t) len (0, t)))
           = snd (for_loop (\<lambda>i m. m(dst + i * ds := m (g i))) len (0, fst t))"
    and "snd (snd (for_loop (\<lambda>i t. st (dst + i * ds) (fst t (g i)) t) len (0, t)))
           = snd t @ writes dst ds len"
proof -
  show "fst (snd (for_loop (\<lambda>i t. st (dst + i * ds) (fst t (g i)) t) len (0, t)))
           = snd (for_loop (\<lambda>i m. m(dst + i * ds := m (g i))) len (0, fst t))"
    by (rule for_loop_erase) (simp add: st_def)
  have "snd (snd (for_loop (\<lambda>i t. st (dst + i * ds) (fst t (g i)) t) len (0, t)))
           = snd t @ concat (map (\<lambda>i. [dst + i * ds]) [0..len - 1])"
    by (rule for_loop_log) (simp add: st_def)
  then show "snd (snd (for_loop (\<lambda>i t. st (dst + i * ds) (fst t (g i)) t) len (0, t)))
           = snd t @ writes dst ds len"
    by (simp add: concat_singletons writes_def)
qed

lemma blur_power_t_copy:
  assumes "radius = 0 \<or> p = 0"
  shows "fst (blur_power_t t dst ds src ss len radius p tp) = blur_power (fst t) dst ds src ss len radius p tp"
    and "snd (blur_power_t t dst ds src ss len radius p tp) = snd t @ blur_power_writes tp dst ds len radius p"
  using assms
  by (auto simp: blur_power_t_def blur_power_def blur_power_writes_def Let_def
      copy_loop_t[where g = "\<lambda>i. src + i * ss"])

lemma blur_power_t_blur:
  assumes r: "0 \<le> radius" "radius < len" and nz: "radius \<noteq> 0 \<and> p \<noteq> 0"
  shows "fst (blur_power_t t dst ds src ss len radius p tp) = blur_power (fst t) dst ds src ss len radius p tp"
    and "snd (blur_power_t t dst ds src ss len radius p tp) = snd t @ blur_power_writes tp dst ds len radius p"
proof -
  obtain a b where tp: "tp = (a, b)" by (cases tp)
  have mx: "max len (radius + 1) = len" using r by simp
  let ?t1 = "blur_t t a 1 src ss len radius"
  obtain t' a' b' p' where pp: "blur_pingpong_t ?t1 a b len radius p = (t', a', b', p')"
    by (cases "blur_pingpong_t ?t1 a b len radius p") auto
  have ps: "(fst t', a', b', p') = blur_pingpong (fst ?t1) a b len radius p"
    "snd t' = snd ?t1 @ pp_writes a b len (nat (p - 2))"
    using blur_pingpong_t_spec[OF r, of ?t1 a b p] pp by simp_all
  have ps': "blur_pingpong (blur (fst t) a 1 src ss len radius) a b len radius p = (fst t', a', b', p')"
    using ps(1) by (simp add: blur_t_spec[OF r(1)])
  have l1: "snd ?t1 = snd t @ writes a 1 len" by (simp add: blur_t_spec[OF r(1)] mx)
  show "fst (blur_power_t t dst ds src ss len radius p tp) = blur_power (fst t) dst ds src ss len radius p tp"
    using nz
    by (simp add: blur_power_t_def blur_power_def Let_def tp pp ps' blur_t_spec[OF r(1)]
        copy_loop_t[where g = "\<lambda>i. a' + i"])
  show "snd (blur_power_t t dst ds src ss len radius p tp) = snd t @ blur_power_writes tp dst ds len radius p"
    using nz
    by (simp add: blur_power_t_def blur_power_writes_def Let_def tp pp ps(2) l1 mx
        blur_t_spec[OF r(1)] copy_loop_t[where g = "\<lambda>i. a' + i"])
qed

lemma blur_power_t_spec:
  assumes r: "0 \<le> radius" "radius = 0 \<or> p = 0 \<or> radius < len"
  shows "fst (blur_power_t t dst ds src ss len radius p tp) = blur_power (fst t) dst ds src ss len radius p tp"
    and "snd (blur_power_t t dst ds src ss len radius p tp) = snd t @ blur_power_writes tp dst ds len radius p"
  using blur_power_t_copy[of radius p t dst ds src ss len tp]
    blur_power_t_blur[OF r(1), of len p t dst ds src ss tp] r(2) by blast+

lemma vblur_t_spec:
  assumes r: "0 \<le> radius" "radius = 0 \<or> p = 0 \<or> radius < h"
  shows "fst (vblur_t t dst dls src sls w h radius p tp) = vblur (fst t) dst dls src sls w h radius p tp"
    and "snd (vblur_t t dst dls src sls w h radius p tp)
         = snd t @ (if radius = 0 \<and> dst = src then []
                    else concat (map (\<lambda>x. blur_power_writes tp (dst + x) dls h radius p) [0..w - 1]))"
proof -
  let ?bt = "\<lambda>x t. blur_power_t t (dst + x) dls (src + x) sls h radius p tp"
  let ?b = "\<lambda>x m. blur_power m (dst + x) dls (src + x) sls h radius p tp"
  have a: "fst (snd (for_loop ?bt w (0, t))) = snd (for_loop ?b w (0, fst t))"
    by (rule for_loop_erase) (simp add: blur_power_t_spec[OF r])
  have b: "snd (snd (for_loop ?bt w (0, t)))
      = snd t @ concat (map (\<lambda>x. blur_power_writes tp (dst + x) dls h radius p) [0..w - 1])"
    by (rule for_loop_log) (simp add: blur_power_t_spec[OF r])
  show "fst (vblur_t t dst dls src sls w h radius p tp) = vblur (fst t) dst dls src sls w h radius p tp"
    using a by (simp add: vblur_t_def vblur_def)
  show "snd (vblur_t t dst dls src sls w h radius p tp)
         = snd t @ (if radius = 0 \<and> dst = src then []
                    else concat (map (\<lambda>x. blur_power_writes tp (dst + x) dls h radius p) [0..w - 1]))"
    using b by (simp add: vblur_t_def)
qed


lemma set_pp_writes: "set (pp_writes a b len k) \<subseteq> cells a 1 len \<union> cells b 1 len"
  by (induction k arbitrary: a b) (auto simp: set_writes)

lemma count_list_concat:
  "count_list (concat xss) c = (\<Sum>xs\<leftarrow>xss. count_list xs c)"
  by (induction xss) simp_all

lemma count_list_indicator:
  "(\<Sum>x\<leftarrow>xs. if x = a then 1 else 0) = count_list xs a"
  by (induction xs) simp_all

lemma distinct_count_list:
  "distinct xs \<Longrightarrow> count_list xs x = (if x \<in> set xs then 1 else 0)"
  by (induction xs) auto

lemma distinct_writes:
  assumes "step \<noteq> 0"
  shows "distinct (writes p step n)"
  unfolding writes_def by (rule distinct_map[THEN iffD2]) (use assms in \<open>auto simp: inj_on_def\<close>)

lemma count_column_writes:
  fixes ls :: int
  assumes wf: "w \<le> \<bar>ls\<bar>"
    and tp: "(cells a 1 h \<union> cells b 1 h) \<inter> plane_cells p ls w h = {}"
    and x0: "0 \<le> x0" "x0 < w" and y0: "0 \<le> y0" "y0 < h"
    and x: "0 \<le> x" "x < w"
  shows "count_list (blur_power_writes (a, b) (p + x) ls h radius pw) (p + y0 * ls + x0)
         = (if x = x0 then 1 else 0)"
proof -
  let ?c = "p + y0 * ls + x0"
  have ls: "ls \<noteq> 0" using wf x0 by auto
  have cp: "?c \<in> plane_cells p ls w h" using x0 y0 by (auto simp: plane_cells_iff)
  have sc: "?c \<notin> set (writes a 1 h @ pp_writes a b h (nat (pw - 2)))"
    using cp tp set_pp_writes[of a b h "nat (pw - 2)"] by (auto simp: set_writes)
  have "?c \<in> set (writes (p + x) ls h) \<longleftrightarrow> x = x0"
  proof
    assume "?c \<in> set (writes (p + x) ls h)"
    then obtain y where y: "0 \<le> y" "y < h" "?c = p + x + y * ls"
      by (auto simp: set_writes cells_iff)
    then have "y0 * ls + x0 = y * ls + x" by simp
    then show "x = x0" using stride_inj[OF wf x0 x] by blast
  next
    assume "x = x0"
    then show "?c \<in> set (writes (p + x) ls h)"
      using y0 by (auto simp: set_writes cells_iff intro!: exI[of _ y0])
  qed
  then have "count_list (writes (p + x) ls h) ?c = (if x = x0 then 1 else 0)"
    using distinct_writes[OF ls, of "p + x" h] by (simp add: distinct_count_list)
  moreover have "count_list (writes a 1 h @ pp_writes a b h (nat (pw - 2))) ?c = 0"
    using sc by (simp only: count_list_0_iff not_False_eq_True)
  ultimately show ?thesis by (simp add: blur_power_writes_def)
qed

lemma count_plane_writes:
  fixes ls :: int
  assumes wf: "w \<le> \<bar>ls\<bar>"
    and tp: "(cells a 1 h \<union> cells b 1 h) \<inter> plane_cells p ls w h = {}"
    and c: "c \<in> plane_cells p ls w h"
  shows "count_list (concat (map (\<lambda>x. blur_power_writes (a, b) (p + x) ls h radius pw) [0..w - 1])) c = 1"
proof -
  obtain x0 y0 where x0: "0 \<le> x0" "x0 < w" and y0: "0 \<le> y0" "y0 < h" and ce: "c = p + y0 * ls + x0"
    using c by (auto simp: plane_cells_iff)
  have "count_list (concat (map (\<lambda>x. blur_power_writes (a, b) (p + x) ls h radius pw) [0..w - 1])) c
      = (\<Sum>x\<leftarrow>[0..w - 1]. count_list (blur_power_writes (a, b) (p + x) ls h radius pw) c)"
    by (simp add: count_list_concat comp_def)
  also have "\<dots> = (\<Sum>x\<leftarrow>[0..w - 1]. if x = x0 then 1 else 0)"
    by (rule arg_cong[where f = sum_list], rule map_cong)
       (use count_column_writes[OF wf tp x0 y0] ce in auto)
  also have "\<dots> = count_list [0..w - 1] x0" by (rule count_list_indicator)
  also have "\<dots> = 1" using x0 by (simp add: distinct_count_list)
  finally show ?thesis .
qed

section \<open>The window sums and the fixed-point reciprocal\<close>

lemma sum_list_upto: "(\<Sum>k\<leftarrow>[a..b]. f k) = sum f {a..b}" for a b :: int
  by (simp add: sum_set_upto_conv_sum_list_int[symmetric])

lemma sum_shift_int:
  fixes a b :: int and f :: "int \<Rightarrow> int"
  assumes "a \<le> b + 1"
  shows "sum f {a + 1..b + 1} = sum f {a..b} + f (b + 1) - f a"
proof -
  have 1: "{a..b + 1} = insert (b + 1) {a..b}" using assms by auto
  have 2: "{a..b + 1} = insert a {a + 1..b + 1}" using assms by auto
  have "sum f {a..b + 1} = sum f {a..b} + f (b + 1)" unfolding 1 by simp
  moreover have "sum f {a..b + 1} = f a + sum f {a + 1..b + 1}" unfolding 2 by simp
  ultimately show ?thesis by simp
qed

lemma refl_in: "0 \<le> radius \<Longrightarrow> 2 * radius < len \<Longrightarrow> 0 \<le> x \<Longrightarrow> x < len \<Longrightarrow>
    in_idx radius len x = mirror_index len (x + radius)"
  by (auto simp: in_idx_def mirror_index_def)

lemma refl_out: "0 \<le> radius \<Longrightarrow> 2 * radius < len \<Longrightarrow> 0 \<le> x \<Longrightarrow> x < len \<Longrightarrow>
    out_idx radius x = mirror_index len (x - 1 - radius)"
  by (auto simp: out_idx_def mirror_index_def)

lemma wsum_window0:
  assumes r: "0 \<le> radius" "2 * radius < len"
  shows "wsum s radius len (- 1) = sum (\<lambda>k. s (mirror_index len k)) {- 1 - radius..- 1 + radius}"
proof -
  let ?f = "\<lambda>k. s (mirror_index len k)"
  have split: "{- 1 - radius..- 1 + radius} = {- 1 - radius..- 1} \<union> {0..radius - 1}"
    using r by auto
  have dj: "{- 1 - radius..- 1} \<inter> {0..radius - 1} = {}" by auto
  have neg: "sum ?f {- 1 - radius..- 1} = sum s {0..radius}"
    by (rule sum.reindex_bij_witness[where i = "\<lambda>i. - 1 - i" and j = "\<lambda>k. - 1 - k"])
       (use r in \<open>auto simp: mirror_index_def\<close>)
  have pos: "sum ?f {0..radius - 1} = sum s {0..radius - 1}"
    by (rule sum.cong) (use r in \<open>auto simp: mirror_index_def\<close>)
  have last: "sum s {0..radius} = sum s {0..radius - 1} + s radius"
  proof -
    have "{0..radius} = insert radius {0..radius - 1}" using r by auto
    then show ?thesis by simp
  qed
  have "sum ?f {- 1 - radius..- 1 + radius} = sum ?f {- 1 - radius..- 1} + sum ?f {0..radius - 1}"
    unfolding split by (rule sum.union_disjoint) (use dj in auto)
  then show ?thesis
    by (simp add: neg pos last wsum_start sum_list_upto sum_distrib_left[symmetric])
qed

lemma wsum_window_set:
  assumes r: "0 \<le> radius" "2 * radius < len" and x: "- 1 \<le> x" "x < len"
  shows "wsum s radius len x = sum (\<lambda>k. s (mirror_index len k)) {x - radius..x + radius}"
  using x
proof (induction x rule: int_ge_induct)
  case base
  show ?case using wsum_window0[OF r, of s] by simp
next
  case (step i)
  let ?f = "\<lambda>k. s (mirror_index len k)"
  have i: "0 \<le> i + 1" "i + 1 < len" using step by simp_all
  have ih: "wsum s radius len i = sum ?f {i - radius..i + radius}" using step by simp
  have "sum ?f {i + 1 - radius..i + 1 + radius} = sum ?f {(i - radius) + 1..(i + radius) + 1}"
    by (simp add: algebra_simps)
  also have "\<dots> = sum ?f {i - radius..i + radius} + ?f (i + radius + 1) - ?f (i - radius)"
    by (rule sum_shift_int) (use r in simp)
  finally have rhs: "sum ?f {i + 1 - radius..i + 1 + radius}
      = sum ?f {i - radius..i + radius} + ?f (i + radius + 1) - ?f (i - radius)" .
  have "wsum s radius len (i + 1) = wsum s radius len i
      + (s (in_idx radius len (i + 1)) - s (out_idx radius (i + 1)))"
    using wsum_step[OF i(1), of s radius len] by simp
  then show ?case
    unfolding rhs ih refl_in[OF r i] refl_out[OF r i] by (simp add: algebra_simps)
qed

lemma wsum_window:
  assumes "0 \<le> radius" "2 * radius < len" "0 \<le> x" "x < len"
  shows "wsum s radius len x = (\<Sum>k\<leftarrow>[x - radius..x + radius]. s (mirror_index len k))"
  using wsum_window_set[OF assms(1,2), of x s] assms(3,4) by (simp add: sum_list_upto)

lemma refl_range:
  assumes "0 \<le> radius" "2 * radius < len" "0 \<le> x" "x < len" "x - radius \<le> k" "k \<le> x + radius"
  shows "0 \<le> mirror_index len k \<and> mirror_index len k < len"
  using assms by (auto simp: mirror_index_def)

lemma wsum_bounds:
  assumes r: "0 \<le> radius" "2 * radius < len" and x: "0 \<le> x" "x < len"
    and s: "\<And>i. 0 \<le> i \<Longrightarrow> i < len \<Longrightarrow> 0 \<le> s i \<and> s i \<le> 255"
  shows "0 \<le> wsum s radius len x \<and> wsum s radius len x \<le> 255 * (2 * radius + 1)"
proof -
  let ?A = "{x - radius..x + radius}"
  have w: "wsum s radius len x = sum (\<lambda>k. s (mirror_index len k)) ?A"
    using wsum_window_set[OF r, of x s] x by simp
  have b: "\<And>k. k \<in> ?A \<Longrightarrow> 0 \<le> s (mirror_index len k) \<and> s (mirror_index len k) \<le> 255"
    using refl_range[OF r x] s by simp
  have lo: "0 \<le> sum (\<lambda>k. s (mirror_index len k)) ?A" by (rule sum_nonneg) (use b in blast)
  have "sum (\<lambda>k. s (mirror_index len k)) ?A \<le> sum (\<lambda>k. 255) ?A" by (rule sum_mono) (use b in blast)
  also have "\<dots> = 255 * (2 * radius + 1)" using r by simp
  finally show ?thesis using lo w by simp
qed

lemma wsum_const:
  assumes "0 \<le> radius"
  shows "wsum (\<lambda>_. c) radius len x = (2 * radius + 1) * c"
  using assms by (simp add: wsum_def sum_list_triv algebra_simps)

lemma samples_range: "0 \<le> samples m src src_step i \<and> samples m src src_step i \<le> 255"
proof -
  have "uint (m (src + i * src_step)) < 2 ^ 8" using uint_lt2p[of "m (src + i * src_step)"] by simp
  then show ?thesis by (simp add: samples_def ld_def)
qed

lemma scale_div: "scale sm iv = (sm * iv + 32768) div 65536"
  by (simp add: scale_def drop_bit_eq_div)

lemma inv_of_bounds:
  assumes "0 \<le> radius"
  shows "0 \<le> inv_of radius" "65536 - radius \<le> (2 * radius + 1) * inv_of radius"
    "(2 * radius + 1) * inv_of radius \<le> 65536 + radius"
proof -
  let ?L = "2 * radius + 1"
  have L: "0 < ?L" using assms by simp
  have m: "65536 + radius = ?L * inv_of radius + (65536 + radius) mod ?L"
    by (simp add: inv_of_def)
  have m0: "0 \<le> (65536 + radius) mod ?L" "(65536 + radius) mod ?L < ?L"
    using pos_mod_sign[OF L] pos_mod_bound[OF L] by blast+
  show "0 \<le> inv_of radius" using assms by (simp add: inv_of_def pos_imp_zdiv_nonneg_iff)
  show "65536 - radius \<le> ?L * inv_of radius" using m m0 by linarith
  show "?L * inv_of radius \<le> 65536 + radius" using m m0 by linarith
qed


lemma radius_le_10: "list_all (\<lambda>r. 511 * \<bar>(2 * r + 1) * inv_of r - 65536\<bar> < inv_of r) [1..10]"
  by code_simp

lemma radius_le_176: "list_all (\<lambda>r. (2 * r + 1) * inv_of r \<le> 65664) [0..176]"
  by code_simp

lemma radius_le_152: "list_all (\<lambda>r. \<bar>(2 * r + 1) * inv_of r - 65536\<bar> \<le> 128) [0..152]"
  by code_simp

lemma exact_template:
  fixes S L r iv E :: int
  assumes S: "0 \<le> S" "S \<le> 255 * L" and L: "L = 2 * r + 1" "0 \<le> r"
    and E: "L * iv = 65536 + E" "511 * \<bar>E\<bar> < iv"
  shows "(S * iv + 32768) div 65536 = (2 * S + L) div (2 * L)"
proof -
  define q where "q = (2 * S + L) div (2 * L)"
  define P where "P = L * q"
  have Lp: "0 < 2 * L" using L by simp
  have m: "2 * S + L = 2 * L * q + (2 * S + L) mod (2 * L)"
    unfolding q_def by simp
  have m0: "0 \<le> (2 * S + L) mod (2 * L)" "(2 * S + L) mod (2 * L) < 2 * L"
    using Lp by (simp_all del: mult_pos_pos)
  have 1: "2 * P \<le> 2 * S + L" "2 * S + L < 2 * P + 2 * L"
    using m m0 by (simp_all add: P_def algebra_simps)
  have L0: "0 < L" using L by linarith
  have "0 \<le> 2 * S + L" using S L0 by linarith
  then have q0: "0 \<le> q" unfolding q_def using pos_imp_zdiv_nonneg_iff[OF Lp] by blast
  have "2 * S + L \<le> L * 511" using S by linarith
  then have "q \<le> (L * 511) div (2 * L)"
    unfolding q_def using Lp by (rule zdiv_mono1)
  also have "\<dots> = (L * 511) div (L * 2)" by (simp add: mult.commute)
  also have "\<dots> = 511 div 2" using L0 by (subst div_mult_mult1) simp_all
  finally have q1: "q \<le> 255" by simp
  have Sb: "P - r \<le> S" "S \<le> P + r" using 1 L by linarith+
  have iv0: "0 \<le> iv" using E by linarith
  have lo: "(P - r) * iv \<le> S * iv" using Sb(1) iv0 by (rule mult_right_mono)
  have hi: "S * iv \<le> (P + r) * iv" using Sb(2) iv0 by (rule mult_right_mono)
  have Piv: "P * iv = 65536 * q + q * E"
  proof -
    have "P * iv = q * (L * iv)" by (simp add: P_def algebra_simps)
    then show ?thesis by (simp add: E algebra_simps)
  qed
  have riv: "2 * (r * iv) = 65536 + E - iv"
  proof -
    have "L * iv = 2 * (r * iv) + iv" by (simp add: L algebra_simps)
    then show ?thesis using E by simp
  qed
  have qE: "\<bar>q * E\<bar> \<le> 255 * \<bar>E\<bar>"
  proof -
    have "\<bar>q * E\<bar> = q * \<bar>E\<bar>" using q0 by (simp add: abs_mult)
    also have "\<dots> \<le> 255 * \<bar>E\<bar>" using q1 by (intro mult_right_mono) simp_all
    finally show ?thesis .
  qed
  have lo2: "P * iv - r * iv \<le> S * iv" using lo by (simp add: algebra_simps)
  have hi2: "S * iv \<le> P * iv + r * iv" using hi by (simp add: algebra_simps)
  have lo': "65536 * q \<le> S * iv + 32768"
    using lo2 Piv riv qE E(2) by linarith
  have hi': "S * iv + 32768 < 65536 * q + 65536"
    using hi2 Piv riv qE E(2) by linarith
  have "(S * iv + 32768) div 65536 = q"
    by (rule int_div_pos_eq[of _ _ _ "S * iv + 32768 - 65536 * q"]) (use lo' hi' in linarith)+
  then show ?thesis by (simp add: q_def)
qed


lemma in_upto: "a \<le> r \<Longrightarrow> r \<le> b \<Longrightarrow> r \<in> set [a..b]" for r :: int
  by simp

lemma uint_byte: "0 \<le> v \<Longrightarrow> v \<le> 255 \<Longrightarrow> uint (word_of_int v :: u8) = v"
  by (simp add: uint_word_of_int take_bit_int_eq_self)

lemma scale_fits:
  assumes r: "0 \<le> radius" "radius \<le> 176" and w: "0 \<le> sm" "sm \<le> 255 * (2 * radius + 1)"
  shows "0 \<le> scale sm (inv_of radius) \<and> scale sm (inv_of radius) \<le> 255"
proof -
  have "radius \<in> set [0..176]" using r by simp
  then have L: "(2 * radius + 1) * inv_of radius \<le> 65664"
    using radius_le_176 by (simp only: list_all_iff)
  have i0: "0 \<le> inv_of radius" by (rule inv_of_bounds(1)[OF r(1)])
  have "sm * inv_of radius \<le> (255 * (2 * radius + 1)) * inv_of radius"
    using w(2) i0 by (rule mult_right_mono)
  also have "\<dots> = 255 * ((2 * radius + 1) * inv_of radius)" by simp
  finally have up: "sm * inv_of radius \<le> 255 * 65664" using L by linarith
  have lo: "0 \<le> sm * inv_of radius" using w(1) i0 by simp
  define t where "t = sm * inv_of radius"
  have "0 \<le> (t + 32768) div 65536 \<and> (t + 32768) div 65536 \<le> 255"
    using up lo unfolding t_def[symmetric] by arith
  then show ?thesis unfolding scale_div t_def .
qed

text \<open>
  The intermediate values of \<open>blur\<close>: for a radius up to \<open>2 ^ 22\<close> the window sum and the
  product \<open>sum * inv + (1 << 15)\<close> stay within the range of a 32-bit \<open>int\<close>.
\<close>

lemma blur_within_int32:
  assumes r: "0 \<le> radius" "radius \<le> 4194304" "2 * radius < len" and x: "0 \<le> x" "x < len"
  shows "0 \<le> wsum (samples m src src_step) radius len x
       \<and> wsum (samples m src src_step) radius len x \<le> 255 * (2 * radius + 1)
       \<and> 0 \<le> wsum (samples m src src_step) radius len x * inv_of radius + 32768
       \<and> wsum (samples m src src_step) radius len x * inv_of radius + 32768 < 2 ^ 31"
proof -
  let ?W = "wsum (samples m src src_step) radius len x"
  have w: "0 \<le> ?W \<and> ?W \<le> 255 * (2 * radius + 1)"
    by (rule wsum_bounds[OF r(1,3) x]) (rule samples_range)
  have i0: "0 \<le> inv_of radius" by (rule inv_of_bounds(1)[OF r(1)])
  have "?W * inv_of radius \<le> (255 * (2 * radius + 1)) * inv_of radius"
    using w i0 by (intro mult_right_mono) simp_all
  also have "\<dots> = 255 * ((2 * radius + 1) * inv_of radius)" by simp
  also have "\<dots> \<le> 255 * (65536 + radius)" using inv_of_bounds(3)[OF r(1)] by simp
  finally have up: "?W * inv_of radius \<le> 255 * (65536 + radius)" .
  have lo: "0 \<le> ?W * inv_of radius" using w i0 by simp
  show ?thesis using w up lo r(2) by simp
qed

lemma map_int_upt: "map int [0..<n] = [0..int n - 1]"
proof (induction n)
  case 0
  show ?case by simp
next
  case (Suc n)
  have "[0..int (Suc n) - 1] = [0..int n - 1] @ [int n]"
    using upto_rec2[of 0 "int n"] by simp
  then show ?case using Suc by simp
qed

lemma sum_run:
  assumes "0 \<le> len"
  shows "(\<Sum>v\<leftarrow>run m src src_step len. uint v) = (\<Sum>k\<leftarrow>[0..len - 1]. samples m src src_step k)"
proof -
  have "(\<Sum>v\<leftarrow>run m src src_step len. uint v)
      = (\<Sum>k\<leftarrow>map int [0..<nat len]. samples m src src_step k)"
    by (simp add: run_def samples_def ld_def comp_def)
  then show ?thesis using assms by (simp add: map_int_upt)
qed

lemma center_sum:
  assumes r: "0 \<le> radius"
  shows "wsum s radius (2 * radius + 1) radius = (\<Sum>k\<leftarrow>[0..2 * radius]. s k)"
proof -
  have "wsum s radius (2 * radius + 1) radius
      = (\<Sum>k\<leftarrow>[radius - radius..radius + radius]. s (mirror_index (2 * radius + 1) k))"
    by (rule wsum_window) (use r in simp_all)
  also have "\<dots> = (\<Sum>k\<leftarrow>[0..2 * radius]. s k)"
    by (rule arg_cong[where f = sum_list], rule map_cong) (auto simp: mirror_index_def)
  finally show ?thesis .
qed

lemma run_store_of: "run (store_of xs) 0 1 (int (length xs)) = xs"
  by (rule nth_equalityI) (simp_all add: run_nth store_of_def)

section \<open>Mirrored runs\<close>

lemma refl_flip:
  "0 \<le> len \<Longrightarrow> mirror_index len (len - 1 - k) = len - 1 - mirror_index len k"
  by (auto simp: mirror_index_def)

lemma blur_list_mirror:
  assumes r: "0 \<le> radius" "2 * radius < len" and l: "length xs = nat len"
  shows "blur_list radius len (rev xs) = rev (blur_list radius len xs)"
proof (rule nth_equalityI)
  show "length (blur_list radius len (rev xs)) = length (rev (blur_list radius len xs))" by simp
next
  fix x assume "x < length (blur_list radius len (rev xs))"
  then have x: "x < nat len" by simp
  let ?x' = "len - 1 - int x"
  let ?s = "\<lambda>i. uint (xs ! nat i)"
  let ?s' = "\<lambda>i. uint (rev xs ! nat i)"
  have x0: "0 \<le> int x" "int x < len" "0 \<le> ?x'" "?x' < len" using x by simp_all
  have nx: "nat len - Suc x = nat ?x'" using x by simp
  have "wsum ?s' radius len (int x) = sum (\<lambda>k. ?s' (mirror_index len k)) {int x - radius..int x + radius}"
    using wsum_window_set[OF r, of "int x" ?s'] x0 by simp
  also have "\<dots> = sum (\<lambda>k. ?s (mirror_index len (len - 1 - k))) {int x - radius..int x + radius}"
  proof (rule sum.cong)
    fix k assume "k \<in> {int x - radius..int x + radius}"
    then have k: "int x - radius \<le> k" "k \<le> int x + radius" by simp_all
    have rg: "0 \<le> mirror_index len k \<and> mirror_index len k < len" by (rule refl_range[OF r x0(1,2) k])
    then have "nat (mirror_index len k) < length xs" using l by simp
    then have "rev xs ! nat (mirror_index len k) = xs ! (length xs - Suc (nat (mirror_index len k)))"
      by (rule rev_nth)
    moreover have "length xs - Suc (nat (mirror_index len k)) = nat (len - 1 - mirror_index len k)"
      using rg l by arith
    ultimately show "?s' (mirror_index len k) = ?s (mirror_index len (len - 1 - k))"
      using r by (simp add: refl_flip)
  qed simp
  also have "\<dots> = sum (\<lambda>j. ?s (mirror_index len j)) {?x' - radius..?x' + radius}"
    by (rule sum.reindex_bij_witness[where i = "\<lambda>j. len - 1 - j" and j = "\<lambda>k. len - 1 - k"]) auto
  also have "\<dots> = wsum ?s radius len ?x'"
    using wsum_window_set[OF r, of ?x' ?s] x0 by simp
  finally have w: "wsum ?s' radius len (int x) = wsum ?s radius len ?x'" .
  have "rev (blur_list radius len xs) ! x = blur_list radius len xs ! (nat len - Suc x)"
    using x by (simp add: rev_nth)
  also have "\<dots> = word_of_int (scale (wsum ?s radius len ?x') (inv_of radius))"
    using x x0 unfolding nx by (simp add: blur_list_def)
  finally show "blur_list radius len (rev xs) ! x = rev (blur_list radius len xs) ! x"
    using x w by (simp add: blur_list_def)
qed

lemma blur_run_mirror:
  assumes "0 \<le> radius" "2 * radius < int (length xs)"
  shows "blur_run radius (rev xs) = rev (blur_run radius xs)"
  using assms blur_list_mirror[of radius "int (length xs)" xs]
  by (simp add: blur_run_eq)


lemma hblur_rows_power1:
  fixes m :: mem
  assumes r: "1 \<le> radius" "radius < w"
    and wf: "w \<le> \<bar>dls\<bar>"
    and pl: "plane_cells src sls (ext w radius) h \<inter> plane_cells dst dls w h = {}"
    and ab: "cells a 1 (ext w radius) \<inter> cells b 1 (ext w radius) = {}"
    and tp: "(cells a 1 (ext w radius) \<union> cells b 1 (ext w radius))
               \<inter> (plane_cells src sls (ext w radius) h \<union> plane_cells dst dls w h) = {}"
    and y: "0 \<le> y" "y < h"
  shows "run (hblur m dst dls src sls w h radius 1 (a, b)) (dst + y * dls) 1 w
         = blur_list radius w (run m (src + y * sls) 1 (ext w radius))"
proof -
  let ?E = "ext w radius"
  let ?step = "\<lambda>y m. blur_power m (dst + y * dls) 1 (src + y * sls) 1 w radius 1 (a, b)"
  let ?T = "cells a 1 ?E \<union> cells b 1 ?E"
  have res: "hblur m dst dls src sls w h radius 1 (a, b) = snd (for_loop ?step h (0, m))"
    using r by (simp add: hblur_def)
  have one: "(1::int) \<noteq> 0" "(1::int) \<le> 1" by simp_all
  have wE: "w \<le> ?E" by (rule len_le_ext)
  have aw: "cells a 1 w \<subseteq> cells a 1 ?E" and bw: "cells b 1 w \<subseteq> cells b 1 ?E"
    using cells_mono[OF wE] by blast+
  have S: "cells (src + y * sls) 1 ?E \<subseteq> plane_cells src sls ?E h" if "0 \<le> y" "y < h" for y
    using that by (rule row_cells_sub)
  have D: "cells (dst + y * dls) 1 w \<subseteq> plane_cells dst dls w h" if "0 \<le> y" "y < h" for y
    using that by (rule row_cells_sub)
  have "(\<forall>i. 0 \<le> i \<and> i < h \<longrightarrow>
            run (snd (for_loop ?step h (0, m))) (dst + i * dls) 1 w
              = blur_list radius w (run m (src + i * sls) 1 ?E))
       \<and> (\<forall>c. c \<notin> (\<Union>i\<in>{0..<h}. cells (dst + i * dls) 1 w) \<union> ?T \<longrightarrow>
            snd (for_loop ?step h (0, m)) c = m c)"
  proof (rule runs_loop[where step = ?step and dp = "\<lambda>y. dst + y * dls" and sp = "\<lambda>y. src + y * sls"
        and T = ?T and F = "blur_list radius w" and slen = ?E])
    fix i :: int and m :: mem assume i: "0 \<le> i" "i < h"
    have sa: "cells (src + i * sls) 1 ?E \<inter> cells a 1 ?E = {}" using S[OF i] tp by blast
    have da: "cells a 1 ?E \<inter> cells (dst + i * dls) 1 w = {}" using D[OF i] tp by blast
    have db: "cells b 1 ?E \<inter> cells (dst + i * dls) 1 w = {}" using D[OF i] tp by blast
    note sp = blur_power_spec[OF r one(2) one(1) ab sa da db, of m]
    show "run (?step i m) (dst + i * dls) 1 w = blur_list radius w (run m (src + i * sls) 1 ?E)"
      using sp by (simp add: blur_power_list_def)
    fix c assume "c \<notin> cells (dst + i * dls) 1 w \<union> ?T"
    then have "c \<notin> cells (dst + i * dls) 1 w \<union> cells a 1 w \<union> cells b 1 w" using aw bw by blast
    then show "?step i m c = m c" using sp by blast
  next
    fix i j :: int assume ij: "0 \<le> i" "i < h" "0 \<le> j" "j < h" "i \<noteq> j"
    show "cells (src + j * sls) 1 ?E \<inter> cells (dst + i * dls) 1 w = {}"
      using S[of j] D[of i] ij pl by blast
    show "cells (dst + j * dls) 1 w \<inter> cells (dst + i * dls) 1 w = {}"
      using rows_disjoint[OF wf, of j i dst] ij by simp
  next
    fix i :: int assume i: "0 \<le> i" "i < h"
    show "cells (src + i * sls) 1 ?E \<inter> ?T = {}" using S[OF i] tp by blast
    show "cells (dst + i * dls) 1 w \<inter> ?T = {}" using D[OF i] tp by blast
  qed
  then show ?thesis unfolding res using y by simp
qed


lemma filter_2x3:
  fixes M :: mem
  assumes x: "0 \<le> x" "x < 2"
  shows "run (vblur (hblur M 100 2 0 2 2 3 1 1 (200, 300)) 100 2 100 2 2 3 1 1 (200, 300)) (100 + x) 2 3
         = blur_list 1 3 [blur_list 1 2 (run M 0 1 3) ! nat x, blur_list 1 2 (run M 2 1 3) ! nat x,
                          blur_list 1 2 (run M 4 1 3) ! nat x]"
proof -
  let ?m1 = "hblur M 100 2 0 2 2 3 1 1 (200, 300)"
  have e: "ext 2 1 = 3" by (simp add: ext_def)
  have pl: "plane_cells 0 2 (ext 2 1) 3 \<inter> plane_cells 100 2 2 3 = {}"
    unfolding e by (auto simp: plane_cells_iff)
  have ab: "cells 200 1 (ext 2 1) \<inter> cells 300 1 (ext 2 1) = {}"
    unfolding e by (auto simp: cells_iff)
  have tp: "(cells 200 1 (ext 2 1) \<union> cells 300 1 (ext 2 1))
               \<inter> (plane_cells 0 2 (ext 2 1) 3 \<union> plane_cells 100 2 2 3) = {}"
    unfolding e by (auto simp: cells_iff plane_cells_iff)
  have row: "run ?m1 (100 + y * 2) 1 2 = blur_list 1 2 (run M (0 + y * 2) 1 3)"
    if "0 \<le> y" "y < 3" for y
    using hblur_rows_power1[OF _ _ _ pl ab tp that, of M] by (simp add: e)
  have cell: "?m1 (100 + y * 2 + x) = blur_list 1 2 (run M (0 + y * 2) 1 3) ! nat x"
    if "0 \<le> y" "y < 3" for y
    using row[OF that] plane_cell_run[OF x, of ?m1 100 y 2] by simp
  have col: "run ?m1 (100 + x) 2 3
      = [blur_list 1 2 (run M 0 1 3) ! nat x, blur_list 1 2 (run M 2 1 3) ! nat x,
         blur_list 1 2 (run M 4 1 3) ! nat x]"
    using cell[of 0] cell[of 1] cell[of 2] by (simp add: run_def upt_rec algebra_simps)
  have ab3: "cells 200 1 3 \<inter> cells 300 1 3 = {}" by (auto simp: cells_iff)
  have tp3: "(cells 200 1 3 \<union> cells 300 1 3) \<inter> (plane_cells 100 2 2 3 \<union> plane_cells 100 2 2 3) = {}"
    by (auto simp: cells_iff plane_cells_iff)
  have "run (vblur ?m1 100 2 100 2 2 3 1 1 (200, 300)) (100 + x) 2 3
      = ((blur_list 1 3) ^^ nat 1) (run ?m1 (100 + x) 2 3)"
    using vblur_cols[where radius = 1 and h = 3 and p = 1 and w = 2 and dls = 2 and src = 100
        and dst = 100 and sls = 2 and a = 200 and b = 300 and m = ?m1, OF _ _ _ _ _ ab3 tp3] x
    by simp
  then show ?thesis by (simp add: col)
qed

text \<open>
  When the window fits strictly inside the rows and the columns (\<open>2 * radius < min w h\<close>),
  the two passes commute with the horizontal mirror of the plane.
\<close>

lemma funpow_blur_list_length:
  "length xs = nat len \<Longrightarrow> length (((blur_list radius len) ^^ n) xs) = nat len"
  by (induction n) simp_all

lemma funpow_blur_list_mirror:
  assumes r: "0 \<le> radius" "2 * radius < len" and l: "length xs = nat len"
  shows "((blur_list radius len) ^^ n) (rev xs) = rev (((blur_list radius len) ^^ n) xs)"
proof (induction n)
  case 0
  show ?case by simp
next
  case (Suc n)
  show ?case
    using Suc blur_list_mirror[OF r funpow_blur_list_length[OF l, where radius = radius and n = n]] by simp
qed

lemma filter_mirror:
  fixes m m' :: mem
  assumes r: "1 \<le> radius" "2 * radius < min w h" and p: "1 \<le> p"
    and wf: "w \<le> \<bar>ols\<bar>"
    and pl: "plane_cells inp ils w h \<inter> plane_cells out ols w h = {}"
    and ab: "cells a 1 (max w h) \<inter> cells b 1 (max w h) = {}"
    and tp: "(cells a 1 (max w h) \<union> cells b 1 (max w h))
               \<inter> (plane_cells inp ils w h \<union> plane_cells out ols w h) = {}"
    and mir: "\<And>x y. 0 \<le> x \<Longrightarrow> x < w \<Longrightarrow> 0 \<le> y \<Longrightarrow> y < h \<Longrightarrow>
                m' (inp + y * ils + x) = m (inp + y * ils + (w - 1 - x))"
    and xy: "0 \<le> x" "x < w" "0 \<le> y" "y < h"
  shows "vblur (hblur m' out ols inp ils w h radius p (a, b)) out ols out ols w h radius p (a, b)
           (out + y * ols + x)
         = vblur (hblur m out ols inp ils w h radius p (a, b)) out ols out ols w h radius p (a, b)
           (out + y * ols + (w - 1 - x))"
proof -
  let ?h = "\<lambda>m. hblur m out ols inp ils w h radius p (a, b)"
  let ?v = "\<lambda>m. vblur m out ols out ols w h radius p (a, b)"
  have r0: "0 \<le> radius" and rw: "2 * radius < w" and rh: "2 * radius < h" using r by simp_all
  have aw: "cells a 1 w \<subseteq> cells a 1 (max w h)" and bw: "cells b 1 w \<subseteq> cells b 1 (max w h)"
    and ah: "cells a 1 h \<subseteq> cells a 1 (max w h)" and bh: "cells b 1 h \<subseteq> cells b 1 (max w h)"
    by (rule cells_mono, simp)+
  have abw: "cells a 1 w \<inter> cells b 1 w = {}" using ab aw bw by blast
  have abh: "cells a 1 h \<inter> cells b 1 h = {}" using ab ah bh by blast
  have tpw: "(cells a 1 w \<union> cells b 1 w) \<inter> (plane_cells inp ils w h \<union> plane_cells out ols w h) = {}"
    using tp aw bw by blast
  have tph: "(cells a 1 h \<union> cells b 1 h) \<inter> (plane_cells out ols w h \<union> plane_cells out ols w h) = {}"
    using tp ah bh by blast
  have x': "0 \<le> w - 1 - x" "w - 1 - x < w" using xy by simp_all
  have src: "run m' (inp + j * ils) 1 w = rev (run m (inp + j * ils) 1 w)" if j: "0 \<le> j" "j < h" for j
  proof (rule nth_equalityI)
    show "length (run m' (inp + j * ils) 1 w) = length (rev (run m (inp + j * ils) 1 w))" by simp
  next
    fix i assume "i < length (run m' (inp + j * ils) 1 w)"
    then have i: "i < nat w" by simp
    have n: "nat w - Suc i = nat (w - 1 - int i)" using i by arith
    have iw: "int i < w" "0 \<le> w - 1 - int i" "w - 1 - int i < w" using i by arith+
    have "run m' (inp + j * ils) 1 w ! i = m' (inp + j * ils + int i)"
      using i iw by (simp add: run_nth)
    also have "\<dots> = m (inp + j * ils + (w - 1 - int i))"
      using mir[of "int i" j] j iw by simp
    also have "\<dots> = run m (inp + j * ils) 1 w ! nat (w - 1 - int i)"
      using iw by (simp add: run_nth)
    finally show "run m' (inp + j * ils) 1 w ! i = rev (run m (inp + j * ils) 1 w) ! i"
      using i by (simp add: rev_nth n)
  qed
  have rows: "run (?h m') (out + j * ols) 1 w = rev (run (?h m) (out + j * ols) 1 w)"
    if j: "0 \<le> j" "j < h" for j
    using hblur_rows[OF r(1) rw p wf pl abw tpw, of m'] hblur_rows[OF r(1) rw p wf pl abw tpw, of m]
      j src[OF j] funpow_blur_list_mirror[OF r0 rw, of "run m (inp + j * ils) 1 w" "nat p"]
    by simp
  have cell: "?h m' (out + j * ols + i) = ?h m (out + j * ols + (w - 1 - i))"
    if j: "0 \<le> j" "j < h" and i: "0 \<le> i" "i < w" for i j
  proof -
    have n: "nat w - Suc (nat i) = nat (w - 1 - i)" using i by arith
    have i': "0 \<le> w - 1 - i" "w - 1 - i < w" using i by simp_all
    have "?h m' (out + j * ols + i) = run (?h m') (out + j * ols) 1 w ! nat i"
      by (rule plane_cell_run[OF i])
    also have "\<dots> = run (?h m) (out + j * ols) 1 w ! nat (w - 1 - i)"
      using i by (simp add: rows[OF j] rev_nth n)
    also have "\<dots> = ?h m (out + j * ols + (w - 1 - i))"
      by (rule plane_cell_run[OF i', symmetric])
    finally show ?thesis .
  qed
  have col: "run (?h m') (out + x) ols h = run (?h m) (out + (w - 1 - x)) ols h"
    by (rule run_cong) (use cell[OF _ _ xy(1,2)] in \<open>simp add: algebra_simps\<close>)
  have "run (?v (?h m')) (out + x) ols h = ((blur_list radius h) ^^ nat p) (run (?h m') (out + x) ols h)"
    using vblur_cols[OF r(1) rh p wf _ abh tph, of "?h m'"] xy by simp
  moreover have "run (?v (?h m)) (out + (w - 1 - x)) ols h
      = ((blur_list radius h) ^^ nat p) (run (?h m) (out + (w - 1 - x)) ols h)"
    using vblur_cols[OF r(1) rh p wf _ abh tph, of "?h m"] x' by simp
  ultimately have "run (?v (?h m')) (out + x) ols h = run (?v (?h m)) (out + (w - 1 - x)) ols h"
    by (simp add: col)
  then show ?thesis
    using col_cell_run[OF xy(3,4), of "?v (?h m')" out ols x]
      col_cell_run[OF xy(3,4), of "?v (?h m)" out ols "w - 1 - x"] by simp
qed

section \<open>Constant planes\<close>

lemma run_const:
  assumes "\<And>c. c \<in> cells p step n \<Longrightarrow> m c = v"
  shows "run m p step n = replicate (nat n) v"
  by (rule nth_equalityI) (use assms cellsI in \<open>auto simp: run_nth\<close>)

lemma run_const_cells:
  assumes "run m p step n = replicate (nat n) v" "c \<in> cells p step n"
  shows "m c = v"
proof -
  obtain i where i: "0 \<le> i" "i < n" "c = p + i * step" using assms(2) by (auto simp: cells_iff)
  have "run m p step n ! nat i = m (p + int (nat i) * step)" by (rule run_nth) (use i in simp)
  then show ?thesis using assms(1) i by simp
qed

lemma blur_list_const:
  assumes r: "0 \<le> radius" "2 * radius < len"
  shows "blur_list radius len (replicate (nat len) v) = replicate (nat len) (const_step radius v)"
proof -
  have E: "ext len radius = len" using r by (simp add: ext_def)
  have rl: "radius < len" using r by simp
  have w: "wsum (\<lambda>i. uint (replicate (nat len) v ! nat i)) radius len (int x) = (2 * radius + 1) * uint v"
    if "x < nat len" for x
  proof -
    have "wsum (\<lambda>i. uint (replicate (nat len) v ! nat i)) radius len (int x)
        = wsum (\<lambda>_. uint v) radius len (int x)"
      by (rule wsum_cong[OF r(1) rl]) (use that in \<open>simp_all add: E\<close>)
    then show ?thesis by (simp add: wsum_const[OF r(1)])
  qed
  have "blur_list radius len (replicate (nat len) v)
      = map (\<lambda>x. const_step radius v) [0..<nat len]"
    unfolding blur_list_def
    by (rule map_cong) (simp_all add: w const_step_def inv_of_def mult.commute)
  then show ?thesis by (simp add: map_replicate_const)
qed

lemma funpow_blur_list_const:
  assumes r: "0 \<le> radius" "2 * radius < len"
  shows "((blur_list radius len) ^^ n) (replicate (nat len) v)
         = replicate (nat len) (((const_step radius) ^^ n) v)"
  by (induction n) (simp_all add: blur_list_const[OF r])

lemma const_step_id:
  assumes r: "0 \<le> radius" "radius \<le> 152"
  shows "const_step radius v = v"
proof -
  let ?L = "2 * radius + 1"
  define e where "e = ?L * inv_of radius - 65536"
  define V where "V = uint v"
  have "radius \<in> set [0..152]" using r by simp
  then have eb: "\<bar>e\<bar> \<le> 128" using radius_le_152 unfolding e_def by (simp only: list_all_iff)
  have V: "0 \<le> V" "V \<le> 255"
    using uint_lt2p[of v] by (simp_all add: V_def)
  have "\<bar>V * e\<bar> = V * \<bar>e\<bar>" using V by (simp add: abs_mult)
  also have "\<dots> \<le> 255 * 128" using V eb by (intro mult_mono) simp_all
  finally have Ve: "\<bar>V * e\<bar> \<le> 32640" by simp
  have "V * ?L * inv_of radius = V * (?L * inv_of radius)" by simp
  also have "\<dots> = 65536 * V + V * e" by (simp add: e_def algebra_simps)
  finally have pr: "V * ?L * inv_of radius = 65536 * V + V * e" .
  have "(V * ?L * inv_of radius + 32768) div 65536 = V"
    by (rule int_div_pos_eq[of _ _ _ "V * e + 32768"]) (use pr Ve in linarith)+
  then have "scale (uint v * ?L) (inv_of radius) = uint v"
    by (simp add: scale_div V_def)
  then show ?thesis by (simp add: const_step_def inv_of_def)
qed

lemma funpow_id: "(\<And>x. f x = x) \<Longrightarrow> (f ^^ n) x = x"
  by (induction n) simp_all

lemma filter_const:
  fixes m :: mem
  assumes r: "1 \<le> radius" "2 * radius < min w h" and p: "1 \<le> p"
    and wf: "w \<le> \<bar>ols\<bar>"
    and pl: "plane_cells inp ils w h \<inter> plane_cells out ols w h = {}"
    and ab: "cells a 1 (max w h) \<inter> cells b 1 (max w h) = {}"
    and tp: "(cells a 1 (max w h) \<union> cells b 1 (max w h))
               \<inter> (plane_cells inp ils w h \<union> plane_cells out ols w h) = {}"
    and const: "\<And>c. c \<in> plane_cells inp ils w h \<Longrightarrow> m c = v"
    and c: "c \<in> plane_cells out ols w h"
  shows "vblur (hblur m out ols inp ils w h radius p (a, b)) out ols out ols w h radius p (a, b) c
         = ((const_step radius) ^^ nat p) (((const_step radius) ^^ nat p) v)"
proof -
  let ?m1 = "hblur m out ols inp ils w h radius p (a, b)"
  let ?m2 = "vblur ?m1 out ols out ols w h radius p (a, b)"
  let ?v1 = "((const_step radius) ^^ nat p) v"
  have r0: "0 \<le> radius" and rw: "2 * radius < w" and rh: "2 * radius < h" using r by simp_all
  have aw: "cells a 1 w \<subseteq> cells a 1 (max w h)" and bw: "cells b 1 w \<subseteq> cells b 1 (max w h)"
    and ah: "cells a 1 h \<subseteq> cells a 1 (max w h)" and bh: "cells b 1 h \<subseteq> cells b 1 (max w h)"
    by (rule cells_mono, simp)+
  have abw: "cells a 1 w \<inter> cells b 1 w = {}" using ab aw bw by blast
  have abh: "cells a 1 h \<inter> cells b 1 h = {}" using ab ah bh by blast
  have tpw: "(cells a 1 w \<union> cells b 1 w) \<inter> (plane_cells inp ils w h \<union> plane_cells out ols w h) = {}"
    using tp aw bw by blast
  have tph: "(cells a 1 h \<union> cells b 1 h) \<inter> (plane_cells out ols w h \<union> plane_cells out ols w h) = {}"
    using tp ah bh by blast
  have rows: "run ?m1 (out + y * ols) 1 w = replicate (nat w) ?v1" if y: "0 \<le> y" "y < h" for y
  proof -
    have "run m (inp + y * ils) 1 w = replicate (nat w) v"
      by (rule run_const) (use const row_cells_sub[OF y, of inp ils w] in blast)
    then show ?thesis
      using hblur_rows[OF r(1) rw p wf pl abw tpw, of m] y
      by (simp add: funpow_blur_list_const[OF r0 rw])
  qed
  have m1: "?m1 d = ?v1" if d: "d \<in> plane_cells out ols w h" for d
  proof -
    obtain y where y: "0 \<le> y" "y < h" "d \<in> cells (out + y * ols) 1 w"
      using d by (auto simp: plane_cells_def)
    show ?thesis by (rule run_const_cells[OF rows[OF y(1,2)] y(3)])
  qed
  have cols: "run ?m2 (out + x) ols h = replicate (nat h) (((const_step radius) ^^ nat p) ?v1)"
    if x: "0 \<le> x" "x < w" for x
  proof -
    have "run ?m1 (out + x) ols h = replicate (nat h) ?v1"
      by (rule run_const) (use m1 col_cells_sub[OF x, of out ols h] in blast)
    then show ?thesis
      using vblur_cols[OF r(1) rh p wf _ abh tph, of ?m1] x
      by (simp add: funpow_blur_list_const[OF r0 rh])
  qed
  obtain x where x: "0 \<le> x" "x < w" "c \<in> cells (out + x) ols h"
    using c unfolding plane_cells_cols[symmetric] by auto
  show ?thesis by (rule run_const_cells[OF cols[OF x(1,2)] x(3)])
qed


section \<open>filter_frame on a frame of one plane\<close>

text \<open>
  For a frame whose only plane is plane 0, \<open>filter_frame\<close> is the horizontal pass from the
  input plane to the output plane followed by the vertical pass over the output plane in place.
\<close>

lemma plane_loop_one:
  assumes "data inp 0 \<noteq> 0" "data inp 1 = 0"
  shows "plane_loop body inp 0 m = body 0 m"
  using assms by (simp add: plane_loop.simps[of body inp 0] plane_loop.simps[of body inp "Suc 0"])

lemma filter_frame_one_plane:
  assumes "data inp 0 \<noteq> 0" "data inp 1 = 0"
  shows "filter_frame boxblur w m inp (Some out) =
    Inr (vblur (hblur m (data out 0) (linesize out 0) (data inp 0) (linesize inp 0)
                  w (height inp) (plane_radius boxblur ! 0) (plane_power boxblur ! 0) (temp boxblur))
           (data out 0) (linesize out 0) (data out 0) (linesize out 0)
           w (height inp) (plane_radius boxblur ! 0) (plane_power boxblur ! 0) (temp boxblur), out)"
  using assms by (simp add: filter_frame_def Let_def plane_loop_one)

section \<open>The parameter resolver\<close>

lemma eval_radius_expr_ok:
  assumes "ev (radius_expr fp) vars = (ret, res)" "0 \<le> ret"
  shows "eval_radius_expr ev vars c fp = Inr (fp\<lparr>param_radius := res\<rparr>)"
  using assms by (simp add: eval_radius_expr_def Let_def)

lemma eval_radius_expr_Inr:
  assumes "eval_radius_expr ev vars c fp = Inr fp'"
  shows "fp' = fp\<lparr>param_radius := snd (ev (radius_expr fp) vars)\<rparr> \<and> 0 \<le> fst (ev (radius_expr fp) vars)"
  using assms by (auto simp: eval_radius_expr_def Let_def case_prod_beta split: if_splits)

lemma max_radius:
  assumes "0 \<le> (d::int)"
  shows "(0 \<le> r \<and> 2 * r \<le> d) \<longleftrightarrow> (0 \<le> r \<and> r \<le> d sdiv 2)"
proof -
  have "d sdiv 2 = d div 2" using assms by (simp add: signed_divide_int_def sgn_if)
  then show ?thesis by auto
qed

text \<open>
  The product \<open>2*radius\<close> of the radius check is the mathematical one below \<open>2^30\<close>;
  from there on it is negative, and the check lets the radius through.
\<close>

lemma int32_double:
  assumes "0 \<le> r" "r < 1073741824"
  shows "int32 (2 * r) = 2 * r"
  using assms by (simp add: int32_def)

lemma int32_double_wraps:
  assumes "1073741824 \<le> r" "r < 2147483648"
  shows "int32 (2 * r) = 2 * r - 4294967296"
proof -
  have "(2 * r + 2147483648) mod 4294967296 = 2 * r + 2147483648 - 4294967296"
    by (rule int_mod_pos_eq[of _ _ 1]) (use assms in simp_all)
  then show ?thesis by (simp add: int32_def)
qed

lemma check_radius_val_small:
  assumes "param_radius fp < 1073741824"
  shows "check_radius_val d d' c fp =
    (if param_radius fp < 0 \<or> 2 * param_radius fp > min d d'
     then Inl (EINVAL, [Invalid_radius_value c (param_radius fp) (min d d' sdiv 2)])
     else Inr ())"
  using assms int32_double[of "param_radius fp"] by (auto simp: check_radius_val_def)

lemma check_radius_val_wraps:
  assumes "1073741824 \<le> param_radius fp" "param_radius fp < 2147483648" "0 \<le> min d d'"
  shows "check_radius_val d d' c fp = Inr ()"
  using assms int32_double_wraps[of "param_radius fp"] by (simp add: check_radius_val_def min_def)

lemma config_input_rejects:
  assumes alloc: "t0 \<noteq> 0" "t1 \<noteq> 0"
    and geo: "cw = drop_bit log2_chroma_w w" "ch = drop_bit log2_chroma_h h"
      "vars = [w, h, cw, ch, push_bit log2_chroma_w 1, push_bit log2_chroma_h 1]"
    and evl: "ev (radius_expr (luma_param boxblur)) vars = (ret_l, rl)" "0 \<le> ret_l"
    and evc: "ev (radius_expr (chroma_param boxblur)) vars = (ret_c, rc)" "0 \<le> ret_c"
    and eva: "ev (radius_expr (alpha_param boxblur)) vars = (ret_a, ra)" "0 \<le> ret_a"
    and small: "rl < 1073741824" "rc < 1073741824" "ra < 1073741824"
    and bad: "rl < 0 \<or> 2 * rl > min w h \<or> rc < 0 \<or> 2 * rc > min cw ch \<or> ra < 0 \<or> 2 * ra > min w h"
  shows "\<exists>c r d.
      config_input ev t0 t1 log2_chroma_w log2_chroma_h w h boxblur
        = Inl (EINVAL, [Invalid_radius_value c r (d sdiv 2)])
    \<and> host_session ev t0 t1 log2_chroma_w log2_chroma_h w h boxblur m frames
        = Inl (EINVAL, [Invalid_radius_value c r (d sdiv 2)])
    \<and> (r < 0 \<or> 2 * r > d)
    \<and> ((c, r, d) = (Luma, rl, min w h) \<or> (c, r, d) = (Chroma, rc, min cw ch)
        \<or> (c, r, d) = (Alpha, ra, min w h))
    \<and> (0 \<le> d \<longrightarrow> (\<forall>r'. (0 \<le> r' \<and> 2 * r' \<le> d) \<longleftrightarrow> (0 \<le> r' \<and> r' \<le> d sdiv 2)))"
proof -
  let ?b1 = "boxblur\<lparr>temp := (t0, t1), hsub := int log2_chroma_w, vsub := int log2_chroma_h\<rparr>"
  have el: "eval_radius_expr ev vars Luma (luma_param boxblur) = Inr ((luma_param boxblur)\<lparr>param_radius := rl\<rparr>)"
    using evl by (simp add: eval_radius_expr_def Let_def)
  have ec: "eval_radius_expr ev vars Chroma (chroma_param boxblur) = Inr ((chroma_param boxblur)\<lparr>param_radius := rc\<rparr>)"
    using evc by (simp add: eval_radius_expr_def Let_def)
  have ea: "eval_radius_expr ev vars Alpha (alpha_param boxblur) = Inr ((alpha_param boxblur)\<lparr>param_radius := ra\<rparr>)"
    using eva by (simp add: eval_radius_expr_def Let_def)
  have cfg: "config_input ev t0 t1 log2_chroma_w log2_chroma_h w h boxblur =
      (if rl < 0 \<or> 2 * rl > min w h then Inl (EINVAL, [Invalid_radius_value Luma rl (min w h sdiv 2)])
       else if rc < 0 \<or> 2 * rc > min cw ch then Inl (EINVAL, [Invalid_radius_value Chroma rc (min cw ch sdiv 2)])
       else Inl (EINVAL, [Invalid_radius_value Alpha ra (min w h sdiv 2)]))"
    using alloc bad el ec ea small unfolding geo
    by (auto simp add: config_input_def Let_def check_radius_val_small)
  have mx: "\<And>d::int. 0 \<le> d \<longrightarrow> (\<forall>r'. (0 \<le> r' \<and> 2 * r' \<le> d) \<longleftrightarrow> (0 \<le> r' \<and> r' \<le> d sdiv 2))"
    using max_radius by blast
  consider (l) "rl < 0 \<or> 2 * rl > min w h"
    | (c) "\<not> (rl < 0 \<or> 2 * rl > min w h)" "rc < 0 \<or> 2 * rc > min cw ch"
    | (a) "\<not> (rl < 0 \<or> 2 * rl > min w h)" "\<not> (rc < 0 \<or> 2 * rc > min cw ch)" "ra < 0 \<or> 2 * ra > min w h"
    using bad by blast
  then show ?thesis
  proof cases
    case l
    have 1: "config_input ev t0 t1 log2_chroma_w log2_chroma_h w h boxblur
        = Inl (EINVAL, [Invalid_radius_value Luma rl (min w h sdiv 2)])"
      using l cfg by simp
    then have 2: "host_session ev t0 t1 log2_chroma_w log2_chroma_h w h boxblur m frames
        = Inl (EINVAL, [Invalid_radius_value Luma rl (min w h sdiv 2)])"
      by (simp add: host_session_def)
    have 3: "rl < 0 \<or> 2 * rl > min w h" using l by blast
    show ?thesis
      by (rule exI[of _ Luma], rule exI[of _ rl], rule exI[of _ "min w h"], intro conjI)
         (rule 1, rule 2, rule 3, simp, rule mx)
  next
    case c
    have 1: "config_input ev t0 t1 log2_chroma_w log2_chroma_h w h boxblur
        = Inl (EINVAL, [Invalid_radius_value Chroma rc (min cw ch sdiv 2)])"
      using c cfg by simp
    then have 2: "host_session ev t0 t1 log2_chroma_w log2_chroma_h w h boxblur m frames
        = Inl (EINVAL, [Invalid_radius_value Chroma rc (min cw ch sdiv 2)])"
      by (simp add: host_session_def)
    have 3: "rc < 0 \<or> 2 * rc > min cw ch" using c by blast
    show ?thesis
      by (rule exI[of _ Chroma], rule exI[of _ rc], rule exI[of _ "min cw ch"], intro conjI)
         (rule 1, rule 2, rule 3, simp, rule mx)
  next
    case a
    have 1: "config_input ev t0 t1 log2_chroma_w log2_chroma_h w h boxblur
        = Inl (EINVAL, [Invalid_radius_value Alpha ra (min w h sdiv 2)])"
      using a cfg by simp
    then have 2: "host_session ev t0 t1 log2_chroma_w log2_chroma_h w h boxblur m frames
        = Inl (EINVAL, [Invalid_radius_value Alpha ra (min w h sdiv 2)])"
      by (simp add: host_session_def)
    have 3: "ra < 0 \<or> 2 * ra > min w h" using a by blast
    show ?thesis
      by (rule exI[of _ Alpha], rule exI[of _ ra], rule exI[of _ "min w h"], intro conjI)
         (rule 1, rule 2, rule 3, simp, rule mx)
  qed
qed

section \<open>The claims\<close>

text \<open>
  C1. With radius 1, power 1 and unit strides, \<open>blur_power\<close> turns the source run
  \<open>[0,0,0,255,0,0,0]\<close> of length 7 into the destination run \<open>[0,0,85,85,85,0,0]\<close>,
  wherever the runs lie, as long as the scratch buffers overlap neither each other nor the
  source nor the destination. The destination may be the source itself.
\<close>

theorem C1_concrete_vector:
  fixes m :: mem
  assumes src: "run m src 1 7 = [0, 0, 0, 255, 0, 0, 0]"
    and ab: "cells a 1 7 \<inter> cells b 1 7 = {}"
    and sa: "cells src 1 7 \<inter> cells a 1 7 = {}"
    and da: "cells a 1 7 \<inter> cells dst 1 7 = {}"
    and db: "cells b 1 7 \<inter> cells dst 1 7 = {}"
  shows "run (blur_power m dst 1 src 1 7 1 1 (a, b)) dst 1 7 = [0, 0, 85, 85, 85, 0, 0]"
proof -
  have "run (blur_power m dst 1 src 1 7 1 1 (a, b)) dst 1 7 = ((blur_list 1 7) ^^ nat 1) (run m src 1 7)"
    by (rule blur_power_run(1)[OF _ _ _ _ ab sa da db]) simp_all
  then show ?thesis by (simp add: src blur_list_vec)
qed

theorem C1_concrete_vector_witness:
  "run (blur_power ((\<lambda>_. 0)(3 := 255)) 100 1 0 1 7 1 1 (200, 300)) 100 1 7 = [0, 0, 85, 85, 85, 0, 0]"
  by (rule C1_concrete_vector) (auto simp: run_def upt_rec cells_def)


text \<open>
  C2. When the radius or the power is 0, \<open>blur_power\<close> leaves in the destination run an
  exact copy of the source run, whether the destination is the source itself or apart from
  it; hence the horizontal pass from an input plane into an output plane followed by the
  vertical pass in place, as \<open>filter_frame\<close> runs them on each plane, leaves the input plane
  in the output plane byte for byte.
\<close>

theorem C2_identity:
  fixes m :: mem
  assumes z: "radius = 0 \<or> p = 0"
  shows "(dst_step \<noteq> 0
          \<and> (cells src src_step len \<inter> cells dst dst_step len = {} \<or> (src = dst \<and> src_step = dst_step))
          \<longrightarrow> run (blur_power m dst dst_step src src_step len radius p t) dst dst_step len
              = run m src src_step len)
       \<and> (w \<le> \<bar>ols\<bar> \<and> plane_cells inp ils w h \<inter> plane_cells out ols w h = {}
          \<longrightarrow> (\<forall>x y. 0 \<le> x \<and> x < w \<and> 0 \<le> y \<and> y < h \<longrightarrow>
                 vblur (hblur m out ols inp ils w h radius p t) out ols out ols w h radius p t
                   (out + y * ols + x) = m (inp + y * ils + x)))"
proof -
  have a: "run (blur_power m dst dst_step src src_step len radius p t) dst dst_step len
              = run m src src_step len"
    if "dst_step \<noteq> 0"
       "cells src src_step len \<inter> cells dst dst_step len = {} \<or> (src = dst \<and> src_step = dst_step)"
    using blur_power_copy(1)[OF z that] .
  have b: "vblur (hblur m out ols inp ils w h radius p t) out ols out ols w h radius p t
                   (out + y * ols + x) = m (inp + y * ils + x)"
    if wf: "w \<le> \<bar>ols\<bar>" and pl: "plane_cells inp ils w h \<inter> plane_cells out ols w h = {}"
      and xy: "0 \<le> x" "x < w" "0 \<le> y" "y < h" for x y
  proof -
    let ?m1 = "hblur m out ols inp ils w h radius p t"
    have "vblur ?m1 out ols out ols w h radius p t = ?m1" by (rule vblur_copy_in_place[OF z])
    moreover have "run ?m1 (out + y * ols) 1 w = run m (inp + y * ils) 1 w"
      using hblur_copy[OF z wf pl, of m t] xy by blast
    ultimately show ?thesis using plane_cell_run[OF xy(1,2)] by metis
  qed
  show ?thesis using a b by blast
qed

theorem C2_identity_witness:
  "run (blur_power (store_of [1, 2, 3, 4]) 100 1 0 1 4 0 2 (200, 300)) 100 1 4 = [1, 2, 3, 4]
   \<and> vblur (hblur (store_of [1, 2, 3, 4]) 100 2 0 2 2 2 0 2 (200, 300)) 100 2 100 2 2 2 0 2 (200, 300)
        (100 + 1 * 2 + 1) = 4"
proof -
  have c: "cells 0 1 4 \<inter> cells 100 1 4 = {}" by (auto simp: cells_def)
  have pl: "plane_cells 0 2 2 2 \<inter> plane_cells 100 2 2 2 = {}" by (auto simp: plane_cells_iff)
  have s: "run (store_of [1, 2, 3, 4]) 0 1 4 = [1, 2, 3, 4]"
    using run_store_of[of "[1, 2, 3, 4]"] by simp
  have v: "store_of [1, 2, 3, 4] (0 + 1 * 2 + 1) = 4" by (simp add: store_of_def)
  note t = C2_identity[where radius = 0 and p = 2 and dst_step = 1 and src = 0 and src_step = 1
        and len = 4 and dst = 100 and m = "store_of [1, 2, 3, 4]" and t = "(200, 300)"
        and w = 2 and h = 2 and ols = 2 and inp = 0 and ils = 2 and out = 100]
  have 1: "run (blur_power (store_of [1, 2, 3, 4]) 100 1 0 1 4 0 2 (200, 300)) 100 1 4 = [1, 2, 3, 4]"
    using t c s by simp
  have all: "\<forall>x y. 0 \<le> x \<and> x < 2 \<and> 0 \<le> y \<and> y < 2 \<longrightarrow>
      vblur (hblur (store_of [1, 2, 3, 4]) 100 2 0 2 2 2 0 2 (200, 300)) 100 2 100 2 2 2 0 2 (200, 300)
        (100 + y * 2 + x) = store_of [1, 2, 3, 4] (0 + y * 2 + x)"
    using t pl by simp
  have "vblur (hblur (store_of [1, 2, 3, 4]) 100 2 0 2 2 2 0 2 (200, 300)) 100 2 100 2 2 2 0 2 (200, 300)
        (100 + 1 * 2 + 1) = store_of [1, 2, 3, 4] (0 + 1 * 2 + 1)"
    using all[rule_format, of 1 1] by simp
  then show ?thesis using 1 v by simp
qed


text \<open>
  C3. The claim fails where twice the radius is the length of the run, which the radius
  check of \<open>config_input\<close> lets through (radius 1 for a plane of 2 by 3 samples, whose
  rows \<open>hblur\<close> hands to \<open>blur_power\<close> with \<open>len = 2\<close>): \<open>blur\<close>
  then reads the sample behind the run it is given. With power 2 the second pass reads the
  byte behind the first scratch buffer: two stores that differ in that byte alone, and so
  hold the same source run \<open>[30, 6]\<close>, leave different destination runs, neither of them
  the run \<open>[21, 21]\<close> of two blurs in sequence. Where the window fits the run
  (\<open>2*radius < len\<close>) the claim holds (lemma \<open>blur_power_iterated\<close>).
\<close>

theorem C3_failing_input:
  "check_radius_val 2 3 Luma \<lparr>param_radius = 1, param_power = 2, radius_expr = Some ''1''\<rparr> = Inr ()
   \<and> run (store_of [30, 6]) 0 1 2 = [30, 6]
   \<and> run ((store_of [30, 6])(202 := 255)) 0 1 2 = [30, 6]
   \<and> run (blur_power (store_of [30, 6]) 100 1 0 1 2 1 2 (200, 300)) 100 1 2 = [19, 11]
   \<and> run (blur_power ((store_of [30, 6])(202 := 255)) 100 1 0 1 2 1 2 (200, 300)) 100 1 2 = [19, 96]
   \<and> blur_run 1 (blur_run 1 [30, 6]) = [21, 21]"
proof -
  let ?m = "store_of [30, 6]"
  let ?m' = "(store_of [30, 6])(202 := 255)"
  have e: "ext 2 1 = 3" by (simp add: ext_def)
  have ab: "cells 200 1 (ext 2 1) \<inter> cells 300 1 (ext 2 1) = {}"
    and sa: "cells 0 1 (ext 2 1) \<inter> cells 200 1 (ext 2 1) = {}"
    and da: "cells 200 1 (ext 2 1) \<inter> cells 100 1 2 = {}"
    and db: "cells 300 1 (ext 2 1) \<inter> cells 100 1 2 = {}"
    unfolding e by (auto simp: cells_iff)
  have s: "run ?m 0 1 2 = [30, 6]" "run ?m' 0 1 2 = [30, 6]"
    by (simp_all add: run_def store_of_def upt_rec)
  have r: "run ?m 0 1 3 = [30, 6, 0]" "run ?m 200 1 3 = [0, 0, 0]" "run ?m 300 1 3 = [0, 0, 0]"
    "run ?m' 0 1 3 = [30, 6, 0]" "run ?m' 200 1 3 = [0, 0, 255]" "run ?m' 300 1 3 = [0, 0, 0]"
    by (simp_all add: run_def store_of_def upt_rec)
  have v: "blur_power_list 1 2 2 [30, 6, 0] [0, 0, 0] [0, 0, 0] = [19, 11]"
    "blur_power_list 1 2 2 [30, 6, 0] [0, 0, 255] [0, 0, 0] = [19, 96]"
    by code_simp+
  have 1: "run (blur_power ?m 100 1 0 1 2 1 2 (200, 300)) 100 1 2 = [19, 11]"
    using blur_power_spec[where radius = 1 and len = 2 and p = 2 and dst_step = 1 and a = 200
        and b = 300 and src = 0 and src_step = 1 and dst = 100 and m = ?m, OF _ _ _ _ ab sa da db]
    by (simp add: e r v)
  have 2: "run (blur_power ?m' 100 1 0 1 2 1 2 (200, 300)) 100 1 2 = [19, 96]"
    using blur_power_spec[where radius = 1 and len = 2 and p = 2 and dst_step = 1 and a = 200
        and b = 300 and src = 0 and src_step = 1 and dst = 100 and m = ?m', OF _ _ _ _ ab sa da db]
    by (simp add: e r v)
  have 3: "blur_run 1 (blur_run 1 [30, 6]) = [21, 21]"
    by code_simp
  have 0: "check_radius_val 2 3 Luma \<lparr>param_radius = 1, param_power = 2, radius_expr = Some ''1''\<rparr> = Inr ()"
    by (simp add: check_radius_val_def int32_def)
  show ?thesis using 0 s 1 2 3 by simp
qed


text \<open>
  C5. When \<open>init\<close> succeeds, an unset chroma (alpha) radius expression has become a copy
  of the luma radius expression and a negative chroma (alpha) power has become the luma
  power. So, when only the luma radius expression is configured, \<open>config_input\<close> resolves
  the radii of all four planes to the value of the luma expression under the variables of
  the geometry (\<open>w\<close>, \<open>h\<close>, \<open>cw\<close>, \<open>ch\<close>, \<open>hsub\<close>, \<open>vsub\<close>), and all four powers to the
  luma power.
\<close>

theorem C5_defaults:
  assumes ok: "init ok_c ok_a boxblur = Inr boxblur'"
  shows "luma_param boxblur' = luma_param boxblur
    \<and> radius_expr (chroma_param boxblur') =
        (if radius_expr (chroma_param boxblur) = None then radius_expr (luma_param boxblur)
         else radius_expr (chroma_param boxblur))
    \<and> radius_expr (alpha_param boxblur') =
        (if radius_expr (alpha_param boxblur) = None then radius_expr (luma_param boxblur)
         else radius_expr (alpha_param boxblur))
    \<and> param_power (chroma_param boxblur') =
        (if param_power (chroma_param boxblur) < 0 then param_power (luma_param boxblur)
         else param_power (chroma_param boxblur))
    \<and> param_power (alpha_param boxblur') =
        (if param_power (alpha_param boxblur) < 0 then param_power (luma_param boxblur)
         else param_power (alpha_param boxblur))
    \<and> (radius_expr (chroma_param boxblur) = None \<and> radius_expr (alpha_param boxblur) = None
        \<and> param_power (chroma_param boxblur) < 0 \<and> param_power (alpha_param boxblur) < 0
        \<and> config_input ev t0 t1 log2_chroma_w log2_chroma_h w h boxblur' = Inr ctx
       \<longrightarrow> plane_radius ctx =
             replicate 4 (snd (ev (radius_expr (luma_param boxblur))
                [w, h, drop_bit log2_chroma_w w, drop_bit log2_chroma_h h,
                 push_bit log2_chroma_w 1, push_bit log2_chroma_h 1]))
         \<and> plane_power ctx = replicate 4 (param_power (luma_param boxblur)))"
proof -
  have a: "luma_param boxblur' = luma_param boxblur"
    and b: "radius_expr (chroma_param boxblur') =
        (if radius_expr (chroma_param boxblur) = None then radius_expr (luma_param boxblur)
         else radius_expr (chroma_param boxblur))"
    and c: "radius_expr (alpha_param boxblur') =
        (if radius_expr (alpha_param boxblur) = None then radius_expr (luma_param boxblur)
         else radius_expr (alpha_param boxblur))"
    and d: "param_power (chroma_param boxblur') =
        (if param_power (chroma_param boxblur) < 0 then param_power (luma_param boxblur)
         else param_power (chroma_param boxblur))"
    and e: "param_power (alpha_param boxblur') =
        (if param_power (alpha_param boxblur) < 0 then param_power (luma_param boxblur)
         else param_power (alpha_param boxblur))"
    using ok by (auto simp: init_def Let_def av_strdup_def split: if_splits)
  have f: "plane_radius ctx =
             replicate 4 (snd (ev (radius_expr (luma_param boxblur))
                [w, h, drop_bit log2_chroma_w w, drop_bit log2_chroma_h h,
                 push_bit log2_chroma_w 1, push_bit log2_chroma_h 1]))
         \<and> plane_power ctx = replicate 4 (param_power (luma_param boxblur))"
    if h: "radius_expr (chroma_param boxblur) = None" "radius_expr (alpha_param boxblur) = None"
       "param_power (chroma_param boxblur) < 0" "param_power (alpha_param boxblur) < 0"
       "config_input ev t0 t1 log2_chroma_w log2_chroma_h w h boxblur' = Inr ctx"
    using h(5) a b c d e h(1-4)
    by (auto simp: config_input_def Let_def numeral_eq_Suc
        split: if_splits sum.splits dest!: eval_radius_expr_Inr)
  show ?thesis using a b c d e f by blast
qed


theorem C5_defaults_witness:
  "\<exists>b' ctx. init True True default_context = Inr b'
     \<and> radius_expr (chroma_param b') = Some ''2'' \<and> radius_expr (alpha_param b') = Some ''2''
     \<and> param_power (chroma_param b') = 2 \<and> param_power (alpha_param b') = 2
     \<and> config_input (\<lambda>e v. (0, 2)) 1000 2000 1 1 16 16 b' = Inr ctx
     \<and> plane_radius ctx = [2, 2, 2, 2] \<and> plane_power ctx = [2, 2, 2, 2]"
proof -
  obtain b' where i: "init True True default_context = Inr b'"
    by (simp add: init_def default_context_def av_strdup_def Let_def)
  obtain ctx where c: "config_input (\<lambda>e v. (0, 2)) 1000 2000 1 1 16 16 b' = Inr ctx"
    using i
    by (auto simp: init_def default_context_def av_strdup_def Let_def config_input_def
        eval_radius_expr_def check_radius_val_def int32_def)
  have d: "radius_expr (chroma_param default_context) = None \<and> radius_expr (alpha_param default_context) = None
        \<and> param_power (chroma_param default_context) < 0 \<and> param_power (alpha_param default_context) < 0"
    by (simp add: default_context_def)
  show ?thesis
    using C5_defaults[OF i, of "\<lambda>e v. (0, 2)" 1000 2000 1 1 16 16 ctx] i c d
    by (simp add: default_context_def numeral_eq_Suc)
qed

text \<open>
  C6. The claim fails from radius \<open>2^30\<close> on: the product \<open>2*radius\<close> of the check is an
  \<open>int\<close> product, negative there. With the luma radius expression "1073741824" and a
  frame of 16 by 16 samples (chroma planes of 8 by 8), \<open>init\<close> and \<open>config_input\<close>
  succeed and hand the radius \<open>2^30\<close> to all four planes. Below \<open>2^30\<close> the check
  rejects as the claim says (lemma \<open>config_input_rejects\<close>).
\<close>

theorem C6_failing_input:
  "init True True big_radius_options = Inr big_radius_context
   \<and> map_sum id plane_radius
         (config_input (\<lambda>e v. (0, 1073741824)) 1000 2000 1 1 16 16 big_radius_context)
       = Inr [1073741824, 1073741824, 1073741824, 1073741824]
   \<and> map_sum id plane_power
         (config_input (\<lambda>e v. (0, 1073741824)) 1000 2000 1 1 16 16 big_radius_context)
       = Inr [2, 2, 2, 2]"
  by (simp add: init_def av_strdup_def big_radius_options_def big_radius_context_def
      config_input_def default_context_def eval_radius_expr_def check_radius_val_def
      int32_def Let_def)


text \<open>
  C4 (amended). For a radius of at least 1 and a source run of exactly \<open>2*radius + 1\<close>
  samples, the window of the output sample at the centre is the whole run: the sample is
  the fixed-point value \<open>(S*inv + (1<<15))>>16\<close> of the sum \<open>S\<close> of all the samples. For
  a radius up to 10 that is the average of the samples rounded to the nearest integer. For
  larger radii the 16-bit reciprocal is too coarse for that: at radius 11 a run of 23
  samples with sum 3646 (average 158.52) gives 158.
\<close>

theorem C4_center_is_rounded_average:
  assumes r: "1 \<le> radius" and len: "len = 2 * radius + 1"
    and ds: "dst_step \<noteq> 0"
    and dj: "cells src src_step len \<inter> cells dst dst_step len = {}"
  shows "blur m dst dst_step src src_step len radius (dst + radius * dst_step)
         = word_of_int (scale (\<Sum>v\<leftarrow>run m src src_step len. uint v) (inv_of radius))
       \<and> (radius \<le> 10 \<longrightarrow>
            uint (blur m dst dst_step src src_step len radius (dst + radius * dst_step))
            = (2 * (\<Sum>v\<leftarrow>run m src src_step len. uint v) + len) div (2 * len))"
proof -
  let ?S = "\<Sum>v\<leftarrow>run m src src_step len. uint v"
  have r0: "0 \<le> radius" and rl: "radius < len" and r2: "2 * radius < len"
    using r len by simp_all
  have E: "ext len radius = len" using r2 by (simp add: ext_def)
  have S: "wsum (samples m src src_step) radius len radius = ?S"
    using center_sum[OF r0, of "samples m src src_step"] sum_run[of len m src src_step] r0
    by (simp add: len)
  have Sb: "0 \<le> ?S \<and> ?S \<le> 255 * (2 * radius + 1)"
    using wsum_bounds[OF r0 r2 r0 rl, of "samples m src src_step"] samples_range S by simp
  have "blur m dst dst_step src src_step len radius (dst + radius * dst_step)
      = word_of_int (scale (wsum (samples m src src_step) radius len radius) (inv_of radius))"
    using blur_cell[OF r0 rl ds _ r0 rl, where src = src and src_step = src_step and m = m] dj
    by (simp add: E samples_def)
  then have fx: "blur m dst dst_step src src_step len radius (dst + radius * dst_step)
      = word_of_int (scale ?S (inv_of radius))"
    by (simp add: S)
  have av: "uint (blur m dst dst_step src src_step len radius (dst + radius * dst_step))
            = (2 * ?S + len) div (2 * len)" if r10: "radius \<le> 10"
  proof -
    have "radius \<in> set [1..10]" using r r10 by simp
    then have e: "511 * \<bar>(2 * radius + 1) * inv_of radius - 65536\<bar> < inv_of radius"
      using radius_le_10 by (simp only: list_all_iff)
    have ex: "scale ?S (inv_of radius) = (2 * ?S + len) div (2 * len)"
      unfolding scale_div
      by (rule exact_template[where r = radius and E = "(2 * radius + 1) * inv_of radius - 65536"])
         (use Sb e r0 in \<open>simp_all add: len\<close>)
    have q: "0 \<le> (2 * ?S + len) div (2 * len) \<and> (2 * ?S + len) div (2 * len) \<le> 255"
      using scale_fits[OF r0, of ?S] r10 Sb unfolding ex by simp
    show ?thesis using q by (simp add: fx ex uint_byte)
  qed
  show ?thesis using fx av by blast
qed

theorem C4_center_is_rounded_average_witness:
  "uint (blur (store_of [10, 20, 243]) 100 1 0 1 3 1 (100 + 1 * 1)) = 91"
proof -
  have s: "run (store_of [10, 20, 243]) 0 1 3 = [10, 20, 243]"
    using run_store_of[of "[10, 20, 243]"] by simp
  have dj: "cells 0 1 3 \<inter> cells 100 1 3 = {}" by (auto simp: cells_def)
  show ?thesis
    using C4_center_is_rounded_average[where radius = 1 and len = 3 and dst_step = 1
        and src = 0 and src_step = 1 and dst = 100 and m = "store_of [10, 20, 243]"] dj
    by (simp add: s scale_div inv_of_def)
qed

theorem C4_counterexample:
  "uint (blur (store_of run23) 100 1 0 1 23 11 (100 + 11 * 1)) = 158
   \<and> (2 * (\<Sum>v\<leftarrow>run (store_of run23) 0 1 23. uint v) + 23) div (2 * 23) = 159"
proof -
  have l: "int (length run23) = 23" by (simp add: run23_def)
  have s: "run (store_of run23) 0 1 23 = run23"
    using run_store_of[of run23] by (simp add: l)
  have t: "(\<Sum>v\<leftarrow>run (store_of run23) 0 1 23. uint v) = 3646"
    unfolding s by (simp add: run23_def sum_list_replicate)
  have w: "wsum (samples (store_of run23) 0 1) 11 23 11 = 3646"
    using center_sum[of 11 "samples (store_of run23) 0 1"] sum_run[of 23 "store_of run23" 0 1] t
    by simp
  have dj: "cells 0 1 (ext 23 11) \<inter> cells 100 1 23 = {}" by (auto simp: cells_def ext_def)
  have "blur (store_of run23) 100 1 0 1 23 11 (100 + 11 * 1)
      = word_of_int (scale (wsum (\<lambda>i. ld (store_of run23) (0 + i * 1)) 11 23 11) (inv_of 11))"
    by (rule blur_cell[OF _ _ _ dj]) simp_all
  then have "blur (store_of run23) 100 1 0 1 23 11 (100 + 11 * 1) = 158"
    using w by (simp add: samples_def scale_div inv_of_def)
  then show ?thesis using t by simp
qed


text \<open>
  C7 (amended). For every plane, every power and every radius the radius check lets through
  (\<open>0 \<le> radius\<close>, \<open>2*radius \<le> h\<close>), the vertical pass run in place leaves in the plane
  what the same pass leaves in a destination plane apart from the source, and it touches
  nothing but the plane and the scratch buffers. The pass into the separate destination
  writes every destination sample exactly once. So does the pass in place when the radius
  is not 0: its writes are those of \<open>blur_power\<close> on column 0, then on column 1, and so
  on, each column going through the scratch buffers first (when the power is not 0) and
  then into the plane from top to bottom; where the window fits the column the column is
  left blurred \<open>power\<close> times. With radius 0 the pass in place returns at once and writes
  nothing: no sample is written once there. The scratch buffers and the separate
  destination lie apart from every sample the pass reads, which is one row more than the
  plane when \<open>2*radius = h\<close>.
\<close>

theorem C7_in_place_vertical_pass:
  fixes m :: mem
  assumes r: "0 \<le> radius" "2 * radius \<le> h" and p: "0 \<le> p"
    and wf: "w \<le> \<bar>ls\<bar>" "w \<le> \<bar>dls\<bar>"
    and pl: "plane_cells src ls w (ext h radius) \<inter> plane_cells dst dls w h = {}"
    and ab: "cells a 1 (ext h radius) \<inter> cells b 1 (ext h radius) = {}"
    and tp: "(cells a 1 (ext h radius) \<union> cells b 1 (ext h radius))
               \<inter> (plane_cells src ls w (ext h radius) \<union> plane_cells dst dls w h) = {}"
  shows "(\<forall>x y. 0 \<le> x \<and> x < w \<and> 0 \<le> y \<and> y < h \<longrightarrow>
            vblur m src ls src ls w h radius p (a, b) (src + y * ls + x)
            = vblur m dst dls src ls w h radius p (a, b) (dst + y * dls + x))
       \<and> (\<forall>c. c \<notin> plane_cells src ls w h \<union> cells a 1 h \<union> cells b 1 h \<longrightarrow>
            vblur m src ls src ls w h radius p (a, b) c = m c)
       \<and> fst (vblur_t (m, []) src ls src ls w h radius p (a, b))
           = vblur m src ls src ls w h radius p (a, b)
       \<and> fst (vblur_t (m, []) dst dls src ls w h radius p (a, b))
           = vblur m dst dls src ls w h radius p (a, b)
       \<and> (\<forall>c\<in>plane_cells dst dls w h.
            count_list (snd (vblur_t (m, []) dst dls src ls w h radius p (a, b))) c = 1)
       \<and> (radius \<noteq> 0 \<longrightarrow>
            snd (vblur_t (m, []) src ls src ls w h radius p (a, b))
              = concat (map (\<lambda>x. blur_power_writes (a, b) (src + x) ls h radius p) [0..w - 1])
            \<and> (\<forall>c\<in>plane_cells src ls w h.
                  count_list (snd (vblur_t (m, []) src ls src ls w h radius p (a, b))) c = 1))
       \<and> (radius = 0 \<longrightarrow> snd (vblur_t (m, []) src ls src ls w h radius p (a, b)) = [])
       \<and> (1 \<le> radius \<and> 2 * radius < h \<and> 1 \<le> p \<longrightarrow>
            (\<forall>x. 0 \<le> x \<and> x < w \<longrightarrow>
               run (vblur m src ls src ls w h radius p (a, b)) (src + x) ls h
               = ((blur_run radius) ^^ nat p) (run m (src + x) ls h)))"
proof -
  let ?E = "ext h radius"
  let ?ip = "vblur m src ls src ls w h radius p (a, b)"
  let ?sep = "vblur m dst dls src ls w h radius p (a, b)"
  let ?tip = "vblur_t (m, []) src ls src ls w h radius p (a, b)"
  let ?tsep = "vblur_t (m, []) dst dls src ls w h radius p (a, b)"
  have hE: "h \<le> ?E" by (rule len_le_ext)
  have pl': "plane_cells src ls w h \<inter> plane_cells dst dls w h = {}"
    using pl plane_cells_mono[OF hE, of src ls w] by blast
  have rh: "radius = 0 \<or> p = 0 \<or> radius < h" using r by auto
  have ah: "cells a 1 h \<subseteq> cells a 1 ?E" and bh: "cells b 1 h \<subseteq> cells b 1 ?E"
    by (rule cells_mono[OF hE])+
  have abh: "cells a 1 h \<inter> cells b 1 h = {}" using ab ah bh by blast
  have tps: "(cells a 1 h \<union> cells b 1 h) \<inter> plane_cells src ls w h = {}"
    using tp ah bh plane_cells_mono[OF hE, of src ls w] by blast
  have tpd: "(cells a 1 h \<union> cells b 1 h) \<inter> plane_cells dst dls w h = {}"
    using tp ah bh by blast
  have cols: "run ?ip (src + x) ls h = run ?sep (dst + x) dls h" if x: "0 \<le> x" "x < w" for x
  proof (cases "radius = 0 \<or> p = 0")
    case True
    have "?ip = m" by (rule vblur_copy_in_place[OF True])
    then show ?thesis using vblur_copy[OF True wf(2) pl' x, of m "(a, b)"] by simp
  next
    case False
    then have r1: "1 \<le> radius" and p1: "1 \<le> p" using r p by simp_all
    have rh: "radius < h" using r1 r(2) by simp
    show ?thesis by (rule vblur_rel[OF r1 rh p1 wf pl ab tp x])
  qed
  have cell: "?ip (src + y * ls + x) = ?sep (dst + y * dls + x)"
    if "0 \<le> x" "x < w" "0 \<le> y" "y < h" for x y
    using cols[OF that(1,2)] col_cell_run[OF that(3,4), of ?ip src ls x]
      col_cell_run[OF that(3,4), of ?sep dst dls x] by simp
  have frame: "?ip c = m c" if c: "c \<notin> plane_cells src ls w h \<union> cells a 1 h \<union> cells b 1 h" for c
  proof (cases "radius = 0 \<or> p = 0")
    case True
    then show ?thesis by (simp add: vblur_copy_in_place)
  next
    case False
    then have r1: "1 \<le> radius" and p1: "1 \<le> p" using r p by simp_all
    have rh: "radius < h" using r1 r(2) by simp
    have tp': "(cells a 1 ?E \<union> cells b 1 ?E) \<inter> plane_cells src ls w ?E = {}" using tp by blast
    show ?thesis by (rule vblur_in_place_frame[OF r1 rh p1 wf(1) ab tp' c])
  qed
  have e1: "fst ?tip = ?ip" and e2: "fst ?tsep = ?sep"
    by (simp_all add: vblur_t_spec(1)[OF r(1) rh])
  have ls: "snd ?tsep = concat (map (\<lambda>x. blur_power_writes (a, b) (dst + x) dls h radius p) [0..w - 1])"
    if c: "c \<in> plane_cells dst dls w h" for c
  proof -
    obtain x y where xy: "0 \<le> x" "x < w" "0 \<le> y" "y < h" "c = dst + y * dls + x"
      using c by (auto simp: plane_cells_iff)
    have "dst + 0 * dls + x \<in> plane_cells dst dls w h"
      unfolding plane_cells_iff by (rule exI[of _ x], rule exI[of _ 0]) (use xy in auto)
    moreover have "src + 0 * ls + x \<in> plane_cells src ls w ?E"
      unfolding plane_cells_iff by (rule exI[of _ x], rule exI[of _ 0]) (use xy hE in auto)
    ultimately have "dst \<noteq> src" using pl by auto
    then show ?thesis by (simp add: vblur_t_spec(2)[OF r(1) rh])
  qed
  have cs: "count_list (snd ?tsep) c = 1" if c: "c \<in> plane_cells dst dls w h" for c
    unfolding ls[OF c] by (rule count_plane_writes[OF wf(2) tpd c])
  have li: "snd ?tip = concat (map (\<lambda>x. blur_power_writes (a, b) (src + x) ls h radius p) [0..w - 1])"
    if "radius \<noteq> 0"
    using that by (simp add: vblur_t_spec(2)[OF r(1) rh])
  have ci: "count_list (snd ?tip) c = 1" if "radius \<noteq> 0" and c: "c \<in> plane_cells src ls w h" for c
    unfolding li[OF that(1)] by (rule count_plane_writes[OF wf(1) tps c])
  have l0: "snd ?tip = []" if "radius = 0"
    using that by (simp add: vblur_t_def)
  have bl: "run ?ip (src + x) ls h = ((blur_run radius) ^^ nat p) (run m (src + x) ls h)"
    if h: "1 \<le> radius \<and> 2 * radius < h \<and> 1 \<le> p" and x: "0 \<le> x \<and> x < w" for x
  proof -
    have "(src = src \<and> ls = ls) \<or> plane_cells src ls w h \<inter> plane_cells src ls w h = {}" by simp
    moreover have "(cells a 1 h \<union> cells b 1 h) \<inter> (plane_cells src ls w h \<union> plane_cells src ls w h) = {}"
      using tps by simp
    ultimately have "run ?ip (src + x) ls h = ((blur_list radius h) ^^ nat p) (run m (src + x) ls h)"
      using vblur_cols[where radius = radius and h = h and p = p and w = w and dls = ls and src = src
          and dst = src and sls = ls and a = a and b = b and m = m] h x wf(1) abh by blast
    then show ?thesis
      using blur_run_funpow[where radius = radius and len = h and xs = "run m (src + x) ls h"
          and n = "nat p"] r(1) h by (simp add: run_length)
  qed
  show ?thesis
    by (intro conjI allI impI ballI) (use cell frame e1 e2 cs li ci l0 bl in blast)+
qed

theorem C7_in_place_vertical_pass_witness:
  "vblur (store_of [10, 20, 30, 40, 50, 60]) 0 2 0 2 2 2 1 2 (200, 300) (0 + 1 * 2 + 1)
   = vblur (store_of [10, 20, 30, 40, 50, 60]) 100 2 0 2 2 2 1 2 (200, 300) (100 + 1 * 2 + 1)
   \<and> snd (vblur_t (store_of [10, 20, 30, 40, 50, 60], []) 0 2 0 2 2 2 1 2 (200, 300))
       = [200, 201, 0, 2, 200, 201, 1, 3]
   \<and> count_list (snd (vblur_t (store_of [10, 20, 30, 40, 50, 60], []) 0 2 0 2 2 2 1 2 (200, 300)))
        (0 + 1 * 2 + 1) = 1"
proof -
  let ?X = "snd (vblur_t (store_of [10, 20, 30, 40, 50, 60], []) 0 2 0 2 2 2 1 2 (200, 300))"
  have e: "ext 2 1 = 3" by (simp add: ext_def)
  have pl: "plane_cells 0 2 2 (ext 2 1) \<inter> plane_cells 100 2 2 2 = {}"
    unfolding e by (auto simp: plane_cells_iff)
  have ab: "cells 200 1 (ext 2 1) \<inter> cells 300 1 (ext 2 1) = {}"
    unfolding e by (auto simp: cells_iff)
  have tp: "(cells 200 1 (ext 2 1) \<union> cells 300 1 (ext 2 1))
               \<inter> (plane_cells 0 2 2 (ext 2 1) \<union> plane_cells 100 2 2 2) = {}"
    unfolding e by (auto simp: cells_iff plane_cells_iff)
  have h: "(0::int) \<le> 1" "2 * (1::int) \<le> 2" "(0::int) \<le> 2" "(2::int) \<le> \<bar>2\<bar>" "(1::int) \<noteq> 0"
    by simp_all
  note t = C7_in_place_vertical_pass[where radius = 1 and h = 2 and p = 2 and w = 2 and ls = 2
      and dls = 2 and src = 0 and dst = 100 and a = 200 and b = 300
      and m = "store_of [10, 20, 30, 40, 50, 60]", OF h(1) h(2) h(3) h(4) h(4) pl ab tp]
  have w: "concat (map (\<lambda>x. blur_power_writes (200, 300) (0 + x) 2 2 1 2) [0..2 - 1])
           = [200, 201, 0, 2, 200, 201, 1, 3]"
    by code_simp
  have c: "(0::int) + 1 * 2 + 1 \<in> plane_cells 0 2 2 2"
    unfolding plane_cells_iff by (rule exI[of _ 1], rule exI[of _ 1]) simp
  have 1: "\<forall>x y. 0 \<le> x \<and> x < 2 \<and> 0 \<le> y \<and> y < 2 \<longrightarrow>
      vblur (store_of [10, 20, 30, 40, 50, 60]) 0 2 0 2 2 2 1 2 (200, 300) (0 + y * 2 + x)
      = vblur (store_of [10, 20, 30, 40, 50, 60]) 100 2 0 2 2 2 1 2 (200, 300) (100 + y * 2 + x)"
    using t by blast
  have 2: "?X = concat (map (\<lambda>x. blur_power_writes (200, 300) (0 + x) 2 2 1 2) [0..2 - 1])
      \<and> (\<forall>c\<in>plane_cells 0 2 2 2. count_list ?X c = 1)"
    using t h(5) by blast
  have v: "vblur (store_of [10, 20, 30, 40, 50, 60]) 0 2 0 2 2 2 1 2 (200, 300) (0 + 1 * 2 + 1)
   = vblur (store_of [10, 20, 30, 40, 50, 60]) 100 2 0 2 2 2 1 2 (200, 300) (100 + 1 * 2 + 1)"
    using 1 by (rule allE[where x = 1], elim allE[where x = 1]) simp
  have s: "?X = [200, 201, 0, 2, 200, 201, 1, 3]" using 2 w by simp
  have k: "count_list ?X (0 + 1 * 2 + 1) = 1" using 2 c by blast
  show ?thesis using v s k by blast
qed

theorem C7_counterexample:
  "count_list (snd (vblur_t (store_of [10, 20, 30, 40], []) 0 2 0 2 2 2 0 2 (200, 300)))
     (0 + 0 * 2 + 0) = 0"
  by (simp add: vblur_t_def)


text \<open>
  C8 (amended). For a plane whose samples all are \<open>v\<close>, every power and every radius up
  to 152 with \<open>2*radius < min w h\<close>, every sample of the output plane after the horizontal
  and the vertical pass is \<open>v\<close> itself. For larger radii the reciprocal is too coarse:
  at radius 153 each pass turns 255 into 254 and 254 into 253, so that the two passes
  of power 1 over a white 307 by 307 plane leave 253.
\<close>

theorem C8_constant_plane:
  fixes m :: mem
  assumes r: "0 \<le> radius" "radius \<le> 152" "2 * radius < min w h" and p: "0 \<le> p"
    and wf: "w \<le> \<bar>ols\<bar>"
    and pl: "plane_cells inp ils w h \<inter> plane_cells out ols w h = {}"
    and ab: "cells a 1 (max w h) \<inter> cells b 1 (max w h) = {}"
    and tp: "(cells a 1 (max w h) \<union> cells b 1 (max w h))
               \<inter> (plane_cells inp ils w h \<union> plane_cells out ols w h) = {}"
    and const: "\<forall>c\<in>plane_cells inp ils w h. m c = v"
  shows "\<forall>c\<in>plane_cells out ols w h.
           vblur (hblur m out ols inp ils w h radius p (a, b)) out ols out ols w h radius p (a, b) c = v"
proof
  fix c assume c: "c \<in> plane_cells out ols w h"
  let ?m1 = "hblur m out ols inp ils w h radius p (a, b)"
  show "vblur ?m1 out ols out ols w h radius p (a, b) c = v"
  proof (cases "radius = 0 \<or> p = 0")
    case True
    obtain x y where xy: "0 \<le> x" "x < w" "0 \<le> y" "y < h" "c = out + y * ols + x"
      using c unfolding plane_cells_iff by blast
    have "inp + y * ils + x \<in> plane_cells inp ils w h" unfolding plane_cells_iff using xy by blast
    then have "m (inp + y * ils + x) = v" using const by blast
    moreover have "vblur ?m1 out ols out ols w h radius p (a, b) = ?m1"
      by (rule vblur_copy_in_place[OF True])
    moreover have "run ?m1 (out + y * ols) 1 w = run m (inp + y * ils) 1 w"
      using hblur_copy[OF True wf pl, of m "(a, b)"] xy by blast
    ultimately show ?thesis using plane_cell_run[OF xy(1,2)] xy(5) by metis
  next
    case False
    then have r1: "1 \<le> radius" and p1: "1 \<le> p" using r p by simp_all
    have "vblur ?m1 out ols out ols w h radius p (a, b) c
         = ((const_step radius) ^^ nat p) (((const_step radius) ^^ nat p) v)"
      by (rule filter_const[OF r1 r(3) p1 wf pl ab tp _ c]) (use const in blast)
    then show ?thesis by (simp add: funpow_id const_step_id[OF r(1,2)])
  qed
qed

theorem C8_constant_plane_witness:
  "vblur (hblur white 100 3 0 3 3 3 1 2 (200, 300)) 100 3 100 3 3 3 1 2 (200, 300) (100 + 1 * 3 + 1) = 255"
proof -
  have pl: "plane_cells 0 3 3 3 \<inter> plane_cells 100 3 3 3 = {}" by (auto simp: plane_cells_iff)
  have ab: "cells 200 1 (max 3 3) \<inter> cells 300 1 (max 3 3) = {}" by (auto simp: cells_iff)
  have tp: "(cells 200 1 (max 3 3) \<union> cells 300 1 (max 3 3))
               \<inter> (plane_cells 0 3 3 3 \<union> plane_cells 100 3 3 3) = {}"
    by (auto simp: cells_iff plane_cells_iff)
  have c: "100 + 1 * 3 + 1 \<in> plane_cells 100 3 3 3"
    unfolding plane_cells_iff by (rule exI[of _ 1], rule exI[of _ 1]) simp
  have "\<forall>c\<in>plane_cells 100 3 3 3.
           vblur (hblur white 100 3 0 3 3 3 1 2 (200, 300)) 100 3 100 3 3 3 1 2 (200, 300) c = 255"
    by (rule C8_constant_plane[OF _ _ _ _ _ pl ab tp]) (simp_all add: white_def)
  then show ?thesis using c by blast
qed

theorem C8_counterexample:
  "vblur (hblur white 100000 307 0 307 307 307 153 1 (200000, 201000))
         100000 307 100000 307 307 307 153 1 (200000, 201000) 100000 = 253"
proof -
  have pl: "plane_cells 0 307 307 307 \<inter> plane_cells 100000 307 307 307 = {}"
    by (auto simp: plane_cells_iff)
  have ab: "cells 200000 1 (max 307 307) \<inter> cells 201000 1 (max 307 307) = {}"
    by (auto simp: cells_iff)
  have tp: "(cells 200000 1 (max 307 307) \<union> cells 201000 1 (max 307 307))
               \<inter> (plane_cells 0 307 307 307 \<union> plane_cells 100000 307 307 307) = {}"
    by (auto simp: cells_iff plane_cells_iff)
  have c: "100000 \<in> plane_cells 100000 307 307 307"
    unfolding plane_cells_iff by (rule exI[of _ 0], rule exI[of _ 0]) simp
  have "vblur (hblur white 100000 307 0 307 307 307 153 1 (200000, 201000))
         100000 307 100000 307 307 307 153 1 (200000, 201000) 100000
      = ((const_step 153) ^^ nat 1) (((const_step 153) ^^ nat 1) 255)"
    by (rule filter_const[OF _ _ _ _ pl ab tp _ c]) (simp_all add: white_def)
  moreover have "const_step 153 255 = 254" by (simp add: const_step_def scale_div inv_of_def)
  moreover have "const_step 153 254 = 253" by (simp add: const_step_def scale_div inv_of_def)
  ultimately show ?thesis by simp
qed


text \<open>
  C9. Blurring the horizontal mirror of a plane and mirroring the result back should give
  what blurring the plane gives. The radius check lets \<open>2*radius = w\<close> through, and then
  \<open>blur\<close> reads \<open>src[2*radius]\<close>, the sample behind the row. On the plane with the rows
  \<open>[0,0]\<close>, \<open>[255,0]\<close>, \<open>[0,0]\<close>, radius 1 and power 1, the output sample at \<open>(0,0)\<close> is 57,
  while the output for the mirrored plane has 28 at the mirrored position \<open>(1,0)\<close>. For
  \<open>2*radius < len\<close> the blur of a run commutes with reversing it (\<open>blur_run_mirror\<close>).
\<close>

theorem C9_failing_input:
  "vblur (hblur (store_of plane23) 100 2 0 2 2 3 1 1 (200, 300))
         100 2 100 2 2 3 1 1 (200, 300) (100 + 0 * 2 + 0) = 57
   \<and> vblur (hblur (store_of plane23_mirror) 100 2 0 2 2 3 1 1 (200, 300))
         100 2 100 2 2 3 1 1 (200, 300) (100 + 0 * 2 + 1) = 28"
proof -
  let ?f = "\<lambda>M. vblur (hblur M 100 2 0 2 2 3 1 1 (200, 300)) 100 2 100 2 2 3 1 1 (200, 300)"
  have r: "run (store_of plane23) 0 1 3 = [0, 0, 255]" "run (store_of plane23) 2 1 3 = [255, 0, 0]"
    "run (store_of plane23) 4 1 3 = [0, 0, 0]"
    by (simp_all add: run_def store_of_def plane23_def upt_rec)
  have r': "run (store_of plane23_mirror) 0 1 3 = [0, 0, 0]"
    "run (store_of plane23_mirror) 2 1 3 = [0, 255, 0]"
    "run (store_of plane23_mirror) 4 1 3 = [0, 0, 0]"
    by (simp_all add: run_def store_of_def plane23_mirror_def upt_rec)
  have b: "blur_list 1 2 [0, 0, 255] = [0, 85]" "blur_list 1 2 [255, 0, 0] = [170, 85]"
    "blur_list 1 2 [0, 0, 0] = [0, 0]" "blur_list 1 2 [0, 255, 0] = [85, 85]"
    by code_simp+
  have c: "blur_list 1 3 [0, 170, 0] = [57, 57, 57]" "blur_list 1 3 [0, 85, 0] = [28, 28, 28]"
    by code_simp+
  have "run (?f (store_of plane23)) (100 + 0) 2 3 = [57, 57, 57]"
    using filter_2x3[of 0 "store_of plane23"] by (simp add: r b c)
  then have 1: "?f (store_of plane23) (100 + 0 * 2 + 0) = 57"
    using col_cell_run[of 0 3 "?f (store_of plane23)" 100 2 0] by simp
  have "run (?f (store_of plane23_mirror)) (100 + 1) 2 3 = [28, 28, 28]"
    using filter_2x3[of 1 "store_of plane23_mirror"] by (simp add: r' b c)
  then have 2: "?f (store_of plane23_mirror) (100 + 0 * 2 + 1) = 28"
    using col_cell_run[of 0 3 "?f (store_of plane23_mirror)" 100 2 1] by simp
  show ?thesis using 1 2 by simp
qed







end
